theory Spec2Isabelle
  imports Main "HOL-Library.Sublist" "HOL-Library.AList" "HOL-Library.Word"
begin

section \<open>JavaScript strings\<close>

text \<open>
  A JavaScript string is a sequence of code units. The model writes a code unit as a
  \<^typ>\<open>char\<close> and a string as a \<^typ>\<open>string\<close>; the code units 0..255 are covered,
  which includes every string that \<open>String.fromCharCode\<close> builds from bytes.
\<close>

definition is_ws :: "char \<Rightarrow> bool" where
  \<comment> \<open>WhiteSpace and LineTerminator code units below 256, as \<open>String.prototype.trim\<close> removes them\<close>
  "is_ws c = (c \<in> {CHR 0x09, CHR 0x0A, CHR 0x0B, CHR 0x0C, CHR 0x0D, CHR 0x20, CHR 0xA0})"

definition trim :: "string \<Rightarrow> string" where
  "trim s = rev (dropWhile is_ws (rev (dropWhile is_ws s)))"

fun indexOf :: "string \<Rightarrow> string \<Rightarrow> nat option" where
  \<comment> \<open>\<open>s.indexOf(sep)\<close>: the first position where \<open>sep\<close> occurs; \<open>None\<close> is -1\<close>
  "indexOf [] sep = (if sep = [] then Some 0 else None)"
| "indexOf (c # cs) sep =
     (if prefix sep (c # cs) then Some 0 else map_option Suc (indexOf cs sep))"

definition includes_str :: "string \<Rightarrow> string \<Rightarrow> bool" where
  "includes_str s sep = (indexOf s sep \<noteq> None)"

definition slice :: "'a list \<Rightarrow> int \<Rightarrow> int \<Rightarrow> 'a list" where
  \<comment> \<open>\<open>s.slice(b, e)\<close>: a negative index counts from the end, both are clamped to the length\<close>
  "slice xs b e =
     (let n = int (length xs);
          lo = (if b < 0 then max (n + b) 0 else min b n);
          hi = (if e < 0 then max (n + e) 0 else min e n)
      in take (nat (hi - lo)) (drop (nat lo) xs))"

definition slice_from :: "'a list \<Rightarrow> int \<Rightarrow> 'a list" where
  \<comment> \<open>\<open>s.slice(b)\<close>: the end defaults to the length\<close>
  "slice_from xs b = slice xs b (int (length xs))"

fun split_from :: "char \<Rightarrow> string \<Rightarrow> string \<Rightarrow> string list" where
  \<comment> \<open>the scan of \<open>s.split(d)\<close>: \<open>cur\<close> is the piece open so far; the last piece is
      pushed at the end of the text, also when it is empty\<close>
  "split_from d cur [] = [cur]"
| "split_from d cur (c # cs) =
     (if c = d then cur # split_from d [] cs else split_from d (cur @ [c]) cs)"

definition split_on :: "char \<Rightarrow> string \<Rightarrow> string list" where
  \<comment> \<open>\<open>s.split(d)\<close> for a one-character separator; the result is never empty\<close>
  "split_on d s = split_from d [] s"

fun join :: "string \<Rightarrow> string list \<Rightarrow> string" where
  "join d [] = []"
| "join d [x] = x"
| "join d (x # y # ys) = x @ d @ join d (y # ys)"

section \<open>ForgeUI.parseParameters\<close>

record setting =
  key :: string
  val :: string

definition dquote :: char where
  "dquote = CHR 0x22"

function lookahead :: "string \<Rightarrow> bool" where
  \<comment> \<open>the lookahead \<open>(?=(?:(?:[^"]*"){2})*[^"]*$)\<close> on the text after a comma: each round of
      the starred group runs \<open>[^"]*"\<close> twice, then \<open>[^"]*$\<close> has to reach the end\<close>
  "lookahead s =
     (case dropWhile (\<lambda>c. c \<noteq> dquote) s of
        [] \<Rightarrow> True
      | q1 # r1 \<Rightarrow>
          (case dropWhile (\<lambda>c. c \<noteq> dquote) r1 of
             [] \<Rightarrow> False
           | q2 # r2 \<Rightarrow> lookahead r2))"
  by pat_completeness auto
termination
proof (relation "measure length")
  show "wf (measure length)" by simp
next
  fix s :: string and q1 r1 q2 r2
  assume a: "dropWhile (\<lambda>c. c \<noteq> dquote) s = q1 # r1"
    and b: "dropWhile (\<lambda>c. c \<noteq> dquote) r1 = q2 # r2"
  have "length (q1 # r1) \<le> length s"
    using length_dropWhile_le [of "\<lambda>c. c \<noteq> dquote" s] a by simp
  moreover have "length (q2 # r2) \<le> length r1"
    using length_dropWhile_le [of "\<lambda>c. c \<noteq> dquote" r1] b by simp
  ultimately show "(r2, s) \<in> measure length" by simp
qed

declare lookahead.simps [simp del]

fun split_params_from :: "string \<Rightarrow> string \<Rightarrow> string list" where
  \<comment> \<open>the scan of \<open>text.split(/,(?=...)/)\<close>: a comma whose lookahead matches closes the
      open piece \<open>cur\<close> and is dropped\<close>
  "split_params_from cur [] = [cur]"
| "split_params_from cur (c # cs) =
     (if c = CHR '','' \<and> lookahead cs then cur # split_params_from [] cs
      else split_params_from (cur @ [c]) cs)"

definition split_params :: "string \<Rightarrow> string list" where
  "split_params text = split_params_from [] text"

definition strip_quotes :: "string \<Rightarrow> string" where
  \<comment> \<open>\<open>if (value.startsWith('"') && value.endsWith('"')) value = value.slice(1,-1)\<close>\<close>
  "strip_quotes v = (if prefix [dquote] v \<and> suffix [dquote] v then slice v 1 (- 1) else v)"

definition parse_part :: "string \<Rightarrow> setting option" where
  \<comment> \<open>one round of the loop over the parts: \<open>None\<close> is \<open>continue\<close>, \<open>Some\<close> is the pushed entry\<close>
  "parse_part part =
     (if trim part = [] then None
      else case indexOf part '':'' of
             None \<Rightarrow> None
           | Some colonIndex \<Rightarrow>
               Some \<lparr>key = trim (slice part 0 (int colonIndex)),
                     val = strip_quotes (trim (slice_from part (int colonIndex + 1)))\<rparr>)"

definition parseParameters :: "string \<Rightarrow> setting list" where
  "parseParameters text = List.map_filter parse_part (split_params text)"

section \<open>Regular expressions of ForgeUI.run\<close>

datatype 'a piece = Text char | Match 'a

definition match_lora_at :: "string \<Rightarrow> (string \<times> string) option" where
  \<comment> \<open>\<open>/<[^>]+>/\<close> tried at the head of the text: the match and the text after it\<close>
  "match_lora_at s =
     (case s of
        [] \<Rightarrow> None
      | c # cs \<Rightarrow>
          (let body = takeWhile (\<lambda>x. x \<noteq> CHR ''>'') cs;
               rest = dropWhile (\<lambda>x. x \<noteq> CHR ''>'') cs
           in if c = CHR ''<'' \<and> body \<noteq> [] \<and> rest \<noteq> []
              then Some (c # body @ [CHR ''>''], tl rest) else None))"

lemma match_lora_at_shorter:
  assumes "match_lora_at s = Some (m, rest)"
  shows "length rest < length s"
proof (cases s)
  case Nil
  with assms show ?thesis by (simp add: match_lora_at_def)
next
  case (Cons c cs)
  let ?r = "dropWhile (\<lambda>x. x \<noteq> CHR ''>'') cs"
  from assms Cons have "rest = tl ?r" and "?r \<noteq> []"
    by (auto simp: match_lora_at_def Let_def split: if_splits)
  moreover have "length ?r \<le> length cs" by (rule length_dropWhile_le)
  ultimately show ?thesis using Cons by (cases ?r) auto
qed

function scan_lora :: "string \<Rightarrow> string piece list" where
  \<comment> \<open>the global scan of \<open>/<[^>]+>/g\<close>, left to right, resuming after each match\<close>
  "scan_lora [] = []"
| "scan_lora (c # cs) =
     (case match_lora_at (c # cs) of
        Some (m, rest) \<Rightarrow> Match m # scan_lora rest
      | None \<Rightarrow> Text c # scan_lora cs)"
  by pat_completeness auto
termination
  by (relation "measure length") (auto dest: match_lora_at_shorter)

declare scan_lora.simps(2) [simp del]

definition matches_of :: "'a piece list \<Rightarrow> 'a list" where
  "matches_of ps = List.map_filter (\<lambda>p. case p of Match m \<Rightarrow> Some m | Text c \<Rightarrow> None) ps"

definition texts_of :: "'a piece list \<Rightarrow> string" where
  "texts_of ps = List.map_filter (\<lambda>p. case p of Text c \<Rightarrow> Some c | Match m \<Rightarrow> None) ps"

definition match_lora :: "string \<Rightarrow> string list option" where
  \<comment> \<open>\<open>positive.match(/<[^>]+>/g)\<close>: \<open>None\<close> is null, returned when nothing matches\<close>
  "match_lora s = (let ms = matches_of (scan_lora s) in if ms = [] then None else Some ms)"

definition remove_lora :: "string \<Rightarrow> string" where
  \<comment> \<open>\<open>positive.replace(/<[^>]+>/g, "")\<close>\<close>
  "remove_lora s = texts_of (scan_lora s)"

definition is_line_terminator :: "char \<Rightarrow> bool" where
  \<comment> \<open>the code units below 256 that \<open>.\<close> does not match\<close>
  "is_line_terminator c = (c = CHR 0x0A \<or> c = CHR 0x0D)"

definition lazy_until :: "char \<Rightarrow> string \<Rightarrow> (string \<times> string) option" where
  \<comment> \<open>\<open>(.*?)d\<close>: the shortest run of \<open>.\<close> that is followed by \<open>d\<close>, and the text after \<open>d\<close>\<close>
  "lazy_until d s =
     (let g = takeWhile (\<lambda>x. x \<noteq> d \<and> \<not> is_line_terminator x) s
      in case drop (length g) s of
           [] \<Rightarrow> None
         | x # r \<Rightarrow> if x = d then Some (g, r) else None)"

definition match_display_at :: "string \<Rightarrow> (string list \<times> string \<times> string) option" where
  \<comment> \<open>\<open>/<(.*?):(.*?):(.*?)>/\<close> tried at the head of the text: the three groups, the match, the rest\<close>
  "match_display_at s =
     (case s of
        [] \<Rightarrow> None
      | c # cs \<Rightarrow>
          if c \<noteq> CHR ''<'' then None
          else
            (case lazy_until CHR '':'' cs of
               None \<Rightarrow> None
             | Some (g1, r1) \<Rightarrow>
                 (case lazy_until CHR '':'' r1 of
                    None \<Rightarrow> None
                  | Some (g2, r2) \<Rightarrow>
                      (case lazy_until CHR ''>'' r2 of
                         None \<Rightarrow> None
                       | Some (g3, r3) \<Rightarrow>
                           Some ([g1, g2, g3], take (length s - length r3) s, r3)))))"

definition is_digit :: "char \<Rightarrow> bool" where
  "is_digit c = (48 \<le> (of_char c :: nat) \<and> (of_char c :: nat) \<le> 57)"

definition digit_val :: "char \<Rightarrow> nat" where
  "digit_val c = of_char c - 48"

definition capture_ref :: "string list \<Rightarrow> nat \<Rightarrow> string \<Rightarrow> string" where
  \<comment> \<open>group \<open>index\<close> when it exists, else the reference \<open>ref\<close> itself\<close>
  "capture_ref caps index ref =
     (if 1 \<le> index \<and> index \<le> length caps then caps ! (index - 1) else ref)"

fun GetSubstitution :: "string \<Rightarrow> string \<Rightarrow> string \<Rightarrow> string list \<Rightarrow> string \<Rightarrow> string" where
  \<comment> \<open>the replacement template expanded for one match: \<open>matched\<close>, the text before it, the
      text after it, the groups; there are no named groups\<close>
  "GetSubstitution m b a caps [] = []"
| "GetSubstitution m b a caps [c] = [c]"
| "GetSubstitution m b a caps (c # d # t) =
     (if c \<noteq> CHR ''$'' then c # GetSubstitution m b a caps (d # t)
      else if d = CHR ''$'' then CHR ''$'' # GetSubstitution m b a caps t
      else if d = CHR ''&'' then m @ GetSubstitution m b a caps t
      else if d = CHR 0x60 then b @ GetSubstitution m b a caps t
      else if d = CHR 0x27 then a @ GetSubstitution m b a caps t
      else if is_digit d then
        (case t of
           [] \<Rightarrow> capture_ref caps (digit_val d) [c, d]
         | e # t' \<Rightarrow>
             if is_digit e \<and> 10 * digit_val d + digit_val e \<le> length caps
             then capture_ref caps (10 * digit_val d + digit_val e) [c, d, e]
                  @ GetSubstitution m b a caps t'
             else capture_ref caps (digit_val d) [c, d] @ GetSubstitution m b a caps t)
      else c # GetSubstitution m b a caps (d # t))"

lemma lazy_until_shorter:
  assumes "lazy_until d s = Some (g, r)"
  shows "length r < length s"
proof -
  let ?g = "takeWhile (\<lambda>x. x \<noteq> d \<and> \<not> is_line_terminator x) s"
  from assms have "drop (length ?g) s = d # r"
    by (auto simp: lazy_until_def Let_def split: list.splits if_splits)
  then have "length (d # r) = length s - length ?g"
    by (metis length_drop)
  then show ?thesis by simp
qed

lemma match_display_at_shorter:
  assumes "match_display_at s = Some (caps, m, rest)"
  shows "length rest < length s"
proof (cases s)
  case Nil
  with assms show ?thesis by (simp add: match_display_at_def)
next
  case (Cons c cs)
  from assms Cons obtain g1 r1 g2 r2 g3 where
    "lazy_until CHR '':'' cs = Some (g1, r1)"
    "lazy_until CHR '':'' r1 = Some (g2, r2)"
    "lazy_until CHR ''>'' r2 = Some (g3, rest)"
    by (auto simp: match_display_at_def split: if_splits option.splits)
  then have "length r1 < length cs" "length r2 < length r1" "length rest < length r2"
    by (auto dest: lazy_until_shorter)
  with Cons show ?thesis by simp
qed

function replace_display :: "string \<Rightarrow> string \<Rightarrow> string \<Rightarrow> string" where
  \<comment> \<open>\<open>str.replace(/<(.*?):(.*?):(.*?)>/g, template)\<close>; \<open>pre\<close> is the part of \<open>str\<close> already passed\<close>
  "replace_display template pre [] = []"
| "replace_display template pre (c # cs) =
     (case match_display_at (c # cs) of
        Some (caps, m, rest) \<Rightarrow>
          GetSubstitution m pre rest caps template @ replace_display template (pre @ m) rest
      | None \<Rightarrow> c # replace_display template (pre @ [c]) cs)"
  by pat_completeness auto
termination
  by (relation "measure (\<lambda>(t, p, s). length s)") (auto dest: match_display_at_shorter)

section \<open>ForgeUI.run\<close>

text \<open>
  \<open>read_prompt_base.js\<close> (the class \<open>BaseFormat\<close>) is not among the sources. Its helpers
  \<open>cleanEdges\<close>, \<open>escapeHTML\<close> and \<open>isNumber\<close> and the colour strings of the options are
  parameters of the model, collected in a record: the helpers are taken to return a value
  on every string, and the options to carry the colours. \<open>log\<close> has no effect on the
  result, and the getter \<open>output\<close> is taken to return what run stored in \<open>_output\<close>.
  With these, run throws nothing on a string.
\<close>

record colors =
  color_int :: string
  color_file :: string
  color_default :: string

record env =
  cleanEdges :: "string \<Rightarrow> string"
  escapeHTML :: "string \<Rightarrow> string"
  isNumber :: "string \<Rightarrow> bool"
  colors :: colors

type_synonym report = "(string \<times> string) list"

definition set_prop :: "string \<Rightarrow> string \<Rightarrow> report \<Rightarrow> report" where
  \<comment> \<open>\<open>result[k] = v\<close> on an object: a present key keeps its place, a new one goes last\<close>
  "set_prop k v result = AList.update k v result"

record forge =
  positive :: string
  negative :: string
  lora :: "string list option"
  params :: "setting list"
  output_report :: report

definition separator :: string where
  "separator = ''Negative prompt:''"

definition lines_of :: "string \<Rightarrow> string list" where
  "lines_of raw = split_on CHR 0x0A raw"

definition last_line :: "string \<Rightarrow> string" where
  "last_line raw =
     (let lines = lines_of raw
      in if length lines > 0 then lines ! (length lines - 1) else [])"

definition first_line :: "string \<Rightarrow> string" where
  "first_line raw =
     (let lines = lines_of raw
      in if length lines = 1 then lines ! 0
         else if length lines > 1 then join [CHR 0x0A] (slice lines 0 (- 1))
         else [])"

definition split_prompt :: "string \<Rightarrow> string \<times> string" where
  \<comment> \<open>the positive and the negative prompt as logged, before the style references are cut\<close>
  "split_prompt fl =
     (case indexOf fl separator of
        Some separatorIndex \<Rightarrow>
          (trim (slice fl 0 (int separatorIndex)),
           trim (slice_from fl (int separatorIndex + int (length separator))))
      | None \<Rightarrow> (trim fl, []))"

definition display_template :: "colors \<Rightarrow> string" where
  "display_template cs =
     ''&lt$1:'' @ color_file cs @ ''$2'' @ color_default cs @ '':''
       @ color_int cs @ ''$3'' @ color_default cs @ ''&gt''"

definition lora_text :: "colors \<Rightarrow> string list \<Rightarrow> string" where
  "lora_text cs l =
     foldl (\<lambda>acc x. acc @ ''<br>'' @ replace_display (display_template cs) [] x) [] l"

definition add_param :: "env \<Rightarrow> setting \<Rightarrow> report \<Rightarrow> report" where
  "add_param e obj result =
     (let k = escapeHTML e (key obj);
          text = escapeHTML e (val obj)
      in if isNumber e (val obj) then set_prop (k @ '': '') (color_int (colors e) @ text) result
         else if k = ''Model'' then set_prop (k @ '': '') (color_file (colors e) @ text) result
         else set_prop (k @ '': '') text result)"

definition run :: "env \<Rightarrow> string \<Rightarrow> forge" where
  "run e raw =
     (let (positive0, negative0) = split_prompt (first_line raw);
          lora = match_lora positive0;
          positive1 = cleanEdges e (remove_lora positive0);
          negative1 = cleanEdges e negative0;
          result0 = set_prop ''Prompt:<br>'' (escapeHTML e positive1) [];
          result1 = (if negative1 \<noteq> [] then
                       set_prop ''Negative Prompt:<br>'' (escapeHTML e negative1) result0
                     else result0);
          result2 = (case lora of
                       Some l \<Rightarrow> set_prop ''LoRA:'' (lora_text (colors e) l) result1
                     | None \<Rightarrow> result1);
          params = parseParameters (last_line raw);
          result3 = foldl (\<lambda>result obj. add_param e obj result) result2 params
      in \<lparr>positive = positive1, negative = negative1, lora = lora,
          params = params, output_report = result3\<rparr>)"

section \<open>ImageUploader.parceMetadata\<close>

datatype error = RangeError | TypeError | OtherError

datatype jsval = JStr string | JNum nat | JUndefined

fun truthy :: "jsval \<Rightarrow> bool" where
  "truthy (JStr s) = (s \<noteq> [])"
| "truthy (JNum n) = (n \<noteq> 0)"
| "truthy JUndefined = False"

type_synonym metadata = "string \<rightharpoonup> jsval"

definition field :: "metadata option \<Rightarrow> string \<Rightarrow> jsval" where
  \<comment> \<open>\<open>metadata && metadata.k\<close>: a missing object and a missing key are both falsy\<close>
  "field md k = (case md of None \<Rightarrow> JUndefined
                 | Some m \<Rightarrow> (case m k of None \<Rightarrow> JUndefined | Some v \<Rightarrow> v))"

definition forge_parcer :: "env \<Rightarrow> jsval \<Rightarrow> error + report" where
  \<comment> \<open>\<open>new ForgeUI(raw, ...).run()\<close> and its \<open>output\<close>. The constructor of the absent base
      class is taken to keep \<open>raw\<close> as it is, so \<open>raw.split\<close> throws on anything but a string.\<close>
  "forge_parcer e raw = (case raw of JStr s \<Rightarrow> Inr (output_report (run e s)) | _ \<Rightarrow> Inl TypeError)"

datatype parser_call = ForgeCall | ComfyCall

definition parceMetadata ::
  "env \<Rightarrow> (jsval \<Rightarrow> error + report) \<Rightarrow> metadata option \<Rightarrow> report \<times> parser_call list" where
  \<comment> \<open>\<open>comfy\<close> stands for \<open>new ComfyUI(raw, ...).run()\<close> and its \<open>output\<close>, whose file
      \<open>read_prompt_comfy.js\<close> is not among the sources. The second component lists the
      parsers that were run, in order.\<close>
  "parceMetadata e comfy md =
     (let forge_try =
            (if truthy (field md ''parameters'')
             then Some (forge_parcer e (field md ''parameters'')) else None)
      in case forge_try of
           Some (Inr out) \<Rightarrow> (out, [ForgeCall])
         | _ \<Rightarrow>
           (let result1 = (if forge_try = None then []
                           else set_prop ''Error'' ''Error in parameters section'' []);
                calls1 = (if forge_try = None then [] else [ForgeCall]);
                comfy_try =
                  (if truthy (field md ''prompt'')
                   then Some (comfy (field md ''prompt'')) else None)
            in case comfy_try of
                 Some (Inr out) \<Rightarrow> (out, calls1 @ [ComfyCall])
               | _ \<Rightarrow>
                 (let result2 = (if comfy_try = None then result1
                                 else set_prop ''Error'' ''Error in prompt section'' result1);
                      calls2 = (if comfy_try = None then calls1 else calls1 @ [ComfyCall]);
                      result3 = (if length result2 = 0 then
                                   set_prop ''Error''
                                     ''No parameters or prompt sections in metadata'' result2
                                 else result2)
                  in (result3, calls2))))"

section \<open>DataView\<close>

type_synonym buffer = "8 word list"

definition bind :: "error + 'a \<Rightarrow> ('a \<Rightarrow> error + 'b) \<Rightarrow> error + 'b" where
  \<comment> \<open>sequencing: an exception of the first step skips the rest\<close>
  "bind r f = (case r of Inl e \<Rightarrow> Inl e | Inr x \<Rightarrow> f x)"

definition getUint8 :: "buffer \<Rightarrow> nat \<Rightarrow> error + nat" where
  "getUint8 b n = (if n < length b then Inr (unat (b ! n)) else Inl RangeError)"

definition getUint16 :: "buffer \<Rightarrow> nat \<Rightarrow> bool \<Rightarrow> error + nat" where
  \<comment> \<open>the flag is \<open>littleEndian\<close>\<close>
  "getUint16 b n littleEndian =
     (if n + 2 \<le> length b then
        Inr (if littleEndian then unat (b ! n) + 256 * unat (b ! (n + 1))
             else 256 * unat (b ! n) + unat (b ! (n + 1)))
      else Inl RangeError)"

definition getUint32 :: "buffer \<Rightarrow> nat \<Rightarrow> bool \<Rightarrow> error + nat" where
  "getUint32 b n littleEndian =
     (if n + 4 \<le> length b then
        Inr (if littleEndian then
               unat (b ! n) + 256 * unat (b ! (n + 1)) + 65536 * unat (b ! (n + 2))
                 + 16777216 * unat (b ! (n + 3))
             else
               16777216 * unat (b ! n) + 65536 * unat (b ! (n + 1)) + 256 * unat (b ! (n + 2))
                 + unat (b ! (n + 3)))
      else Inl RangeError)"

section \<open>The TIFF directory reader of readEXIFData\<close>

fun read_chars :: "buffer \<Rightarrow> nat \<Rightarrow> nat \<Rightarrow> error + string" where
  \<comment> \<open>the loop of getStringFromDB: \<open>k\<close> more bytes from \<open>n\<close> on, one character each\<close>
  "read_chars buf n 0 = Inr []"
| "read_chars buf n (Suc k) =
     bind (getUint8 buf n) (\<lambda>b. bind (read_chars buf (Suc n) k) (\<lambda>s. Inr (char_of b # s)))"

definition getStringFromDB :: "buffer \<Rightarrow> nat \<Rightarrow> int \<Rightarrow> error + string" where
  \<comment> \<open>\<open>for (n = start; n < start+length; n++)\<close>: no round when \<open>length\<close> is not positive\<close>
  "getStringFromDB buf start len = read_chars buf start (nat len)"

definition readTagValue :: "buffer \<Rightarrow> nat \<Rightarrow> nat \<Rightarrow> nat \<Rightarrow> bool \<Rightarrow> error + jsval" where
  "readTagValue file entryOffset tiffStart dirStart bigEnd =
     bind (getUint16 file (entryOffset + 2) (\<not> bigEnd)) (\<lambda>ty.
     bind (getUint32 file (entryOffset + 4) (\<not> bigEnd)) (\<lambda>numValues.
     bind (getUint32 file (entryOffset + 8) (\<not> bigEnd)) (\<lambda>v.
       let valueOffset = v + tiffStart
       in if ty = 7 then
            (let offset = (if numValues > 4 then valueOffset else entryOffset + 8)
             in bind (getStringFromDB file (offset + 7) (int numValues - 8))
                  (\<lambda>s. Inr (JStr s)))
          else if ty = 4 then
            (if numValues = 1 then
               bind (getUint32 file (entryOffset + 8) (\<not> bigEnd)) (\<lambda>n. Inr (JNum n))
             else Inr JUndefined)
          else Inr JUndefined)))"

type_synonym tags = "(string \<times> jsval) list"

definition tag_name :: "(nat \<rightharpoonup> string) \<Rightarrow> nat \<Rightarrow> string" where
  \<comment> \<open>\<open>strings[id]\<close> used as a property key: a missing id gives undefined, whose key is
      the string \<open>undefined\<close>\<close>
  "tag_name strings i = (case strings i of Some name \<Rightarrow> name | None \<Rightarrow> ''undefined'')"

function read_entries ::
  "buffer \<Rightarrow> nat \<Rightarrow> nat \<Rightarrow> (nat \<rightharpoonup> string) \<Rightarrow> bool \<Rightarrow> nat \<Rightarrow> nat \<Rightarrow> tags \<Rightarrow> error + tags" where
  \<comment> \<open>the loop \<open>for (i=0;i<entries;i++)\<close> of readTags, from round \<open>i\<close> on\<close>
  "read_entries file tiffStart dirStart strings bigEnd i entries tags =
     (if i < entries then
        (let entryOffset = dirStart + i * 12 + 2
         in bind (getUint16 file entryOffset (\<not> bigEnd)) (\<lambda>tagid.
            bind (readTagValue file entryOffset tiffStart dirStart bigEnd) (\<lambda>v.
              read_entries file tiffStart dirStart strings bigEnd (i + 1) entries
                (AList.update (tag_name strings tagid) v tags))))
      else Inr tags)"
  by pat_completeness auto
termination
  by (relation "measure (\<lambda>(file, tiffStart, dirStart, strings, bigEnd, i, entries, tags). entries - i)")
    auto

declare read_entries.simps [simp del]

definition readTags :: "buffer \<Rightarrow> nat \<Rightarrow> nat \<Rightarrow> (nat \<rightharpoonup> string) \<Rightarrow> bool \<Rightarrow> error + tags" where
  "readTags file tiffStart dirStart strings bigEnd =
     bind (getUint16 file dirStart (\<not> bigEnd)) (\<lambda>entries.
       read_entries file tiffStart dirStart strings bigEnd 0 entries [])"

definition TiffTags :: "nat \<rightharpoonup> string" where
  "TiffTags = [0x8769 \<mapsto> ''ExifIFDPointer'']"

definition ExifTags :: "nat \<rightharpoonup> string" where
  "ExifTags = [0x9286 \<mapsto> ''UserComment'']"

definition entry_tag :: "buffer \<Rightarrow> nat \<Rightarrow> bool \<Rightarrow> nat \<Rightarrow> nat" where
  \<comment> \<open>the tag id that round \<open>j\<close> of readTags reads\<close>
  "entry_tag file dirStart bigEnd j =
     (case getUint16 file (dirStart + j * 12 + 2) (\<not> bigEnd) of Inr t \<Rightarrow> t | Inl e \<Rightarrow> 0)"

definition parameters_of :: "tags \<Rightarrow> metadata" where
  \<comment> \<open>\<open>for (tag in exifData) tags["parameters"] = exifData[tag]\<close>, from the empty object\<close>
  "parameters_of exifData =
     foldl (\<lambda>tags (tag, v). tags(''parameters'' \<mapsto> v)) Map.empty exifData"

section \<open>ImageUploader.readEXIFMetadata and readMetadata\<close>

datatype exif_result = ExifFalse | ExifUndefined | ExifReport report

type_synonym exif_reader = "buffer \<Rightarrow> nat \<Rightarrow> error + exif_result"

partial_function (option) skip_segments ::
  "exif_reader \<Rightarrow> buffer \<Rightarrow> nat \<Rightarrow> (error + exif_result) option" where
  \<comment> \<open>the loop \<open>while (offset < length)\<close>: \<open>None\<close> stands for a loop that never ends,
      \<open>Some (Inl e)\<close> for an exception, \<open>Some (Inr r)\<close> for a returned value. \<open>rd\<close> is the
      call \<open>this.readEXIFData(dataView, start)\<close>, whose result is returned as it is.\<close>
  "skip_segments rd buf offset =
     (if offset < length buf then
        (case getUint8 buf offset of
           Inl e \<Rightarrow> Some (Inl e)
         | Inr b \<Rightarrow>
             if b \<noteq> 0xFF then Some (Inr ExifFalse)
             else
               (case getUint8 buf (offset + 1) of
                  Inl e \<Rightarrow> Some (Inl e)
                | Inr marker \<Rightarrow>
                    if marker = 225 then
                      (case getUint16 buf (offset + 2) False of
                         Inl e \<Rightarrow> Some (Inl e)
                       | Inr len \<Rightarrow> Some (rd buf (offset + 4)))
                    else
                      (case getUint16 buf (offset + 2) False of
                         Inl e \<Rightarrow> Some (Inl e)
                       | Inr len \<Rightarrow> skip_segments rd buf (offset + (2 + len)))))
      else Some (Inr ExifUndefined))"

definition readEXIFMetadata :: "exif_reader \<Rightarrow> buffer \<Rightarrow> (error + exif_result) option" where
  "readEXIFMetadata rd buf =
     (case getUint8 buf 0 of
        Inl e \<Rightarrow> Some (Inl e)
      | Inr b0 \<Rightarrow>
          if b0 \<noteq> 0xFF then Some (Inr ExifFalse)
          else
            (case getUint8 buf 1 of
               Inl e \<Rightarrow> Some (Inl e)
             | Inr b1 \<Rightarrow>
                 if b1 \<noteq> 0xD8 then Some (Inr ExifFalse)
                 else skip_segments rd buf 2))"

definition segment_length :: "buffer \<Rightarrow> nat \<Rightarrow> nat" where
  \<comment> \<open>the declared length that the round at \<open>offset\<close> reads, \<open>getUint16(offset+2)\<close>\<close>
  "segment_length buf offset =
     (case getUint16 buf (offset + 2) False of Inr n \<Rightarrow> n | Inl e \<Rightarrow> 0)"

record image_file =
  ftype :: string
  bytes :: buffer

record shown =
  metadata_report :: report
  toasts :: "string list"

definition spread :: "exif_result \<Rightarrow> report" where
  \<comment> \<open>\<open>{...baseMetadata, ...exifData}\<close> with the empty \<open>baseMetadata\<close>: false and undefined
      have no properties\<close>
  "spread r = (case r of ExifReport rep \<Rightarrow> rep | _ \<Rightarrow> [])"

definition readMetadata ::
  "env \<Rightarrow> (jsval \<Rightarrow> error + report) \<Rightarrow> (buffer \<Rightarrow> error + metadata option) \<Rightarrow> exif_reader
     \<Rightarrow> image_file \<Rightarrow> shown option" where
  \<comment> \<open>\<open>png\<close> stands for \<open>pngMetadata.getFromPngBuffer\<close> of the host application. An
      exception of either reader is caught here: a toast is shown and the empty
      \<open>baseMetadata\<close> is returned.\<close>
  "readMetadata e comfy png rd f =
     (if ftype f = ''image/png'' then
        (case png (bytes f) of
           Inr md \<Rightarrow> Some \<lparr>metadata_report = fst (parceMetadata e comfy md), toasts = []\<rparr>
         | Inl err \<Rightarrow> Some \<lparr>metadata_report = [], toasts = [''Error in readMetadata'']\<rparr>)
      else if ftype f = ''image/jpeg'' then
        (case readEXIFMetadata rd (bytes f) of
           None \<Rightarrow> None
         | Some (Inr exifData) \<Rightarrow> Some \<lparr>metadata_report = spread exifData, toasts = []\<rparr>
         | Some (Inl err) \<Rightarrow> Some \<lparr>metadata_report = [], toasts = [''Error in readMetadata'']\<rparr>)
      else Some \<lparr>metadata_report = [], toasts = []\<rparr>)"

section \<open>The vocabulary of the specification\<close>

text \<open>
  The tokenizer in the words of the specification. A comma is a delimiter when the
  number of double quotes after it, to the end of the line, is even. A segment with a
  colon gives the entry whose key is the text before the first colon, trimmed, and whose
  value is the text after it, trimmed, without its outer pair of double quotes when it is
  wrapped in one; a segment without a colon gives nothing. A pair is two characters: a
  value that is one double quote is not wrapped in a pair.
\<close>

definition comma_is_delimiter :: "string \<Rightarrow> bool" where
  "comma_is_delimiter rest = even (count_list rest dquote)"

fun spec_segments_from :: "string \<Rightarrow> string \<Rightarrow> string list" where
  "spec_segments_from cur [] = [cur]"
| "spec_segments_from cur (c # cs) =
     (if c = CHR '','' \<and> comma_is_delimiter cs then cur # spec_segments_from [] cs
      else spec_segments_from (cur @ [c]) cs)"

definition strip_pair :: "string \<Rightarrow> string" where
  "strip_pair v =
     (if 2 \<le> length v \<and> hd v = dquote \<and> last v = dquote then butlast (tl v) else v)"

definition spec_entry :: "string \<Rightarrow> setting option" where
  "spec_entry seg =
     (if CHR '':'' \<in> set seg then
        Some \<lparr>key = trim (takeWhile (\<lambda>c. c \<noteq> CHR '':'') seg),
              val = strip_pair (trim (tl (dropWhile (\<lambda>c. c \<noteq> CHR '':'') seg)))\<rparr>
      else None)"

definition spec_tokenize :: "string \<Rightarrow> setting list" where
  "spec_tokenize s = List.map_filter spec_entry (spec_segments_from [] s)"

text \<open>
  The vocabulary of the claims about style references. A span is \<open><\<close>, then one or more
  characters other than \<open>>\<close>, then \<open>>\<close>: the strings that \<open>/<[^>]+>/\<close> matches as a
  whole. A text is closed when no \<open><\<close> stands in it after its last \<open>>\<close>.
\<close>

definition is_span :: "string \<Rightarrow> bool" where
  "is_span m = (3 \<le> length m \<and> hd m = CHR ''<'' \<and> last m = CHR ''>''
                 \<and> CHR ''>'' \<notin> set (butlast (tl m)))"

fun piece_text :: "string piece \<Rightarrow> string" where
  "piece_text (Text c) = [c]"
| "piece_text (Match m) = m"

definition closed_before :: "string \<Rightarrow> bool" where
  "closed_before pre = (CHR ''<'' \<notin> set (takeWhile (\<lambda>x. x \<noteq> CHR ''>'') (rev pre)))"

section \<open>Sample collaborators\<close>

text \<open>
  Concrete values for the parameters of the model, used where a theorem is applied to a
  concrete input: helpers of the absent base class that change nothing but edge
  whitespace, a ComfyUI parser that throws, a PNG reader that finds no text chunk, and
  an EXIF reader that finds no EXIF data.
\<close>

definition plain_env :: env where
  "plain_env = \<lparr>cleanEdges = trim, escapeHTML = (\<lambda>s. s),
     isNumber = (\<lambda>s. s \<noteq> [] \<and> list_all is_digit s),
     colors = \<lparr>color_int = ''[i]'', color_file = ''[f]'', color_default = ''[d]''\<rparr>\<rparr>"

definition no_comfy :: "jsval \<Rightarrow> error + report" where
  "no_comfy raw = Inl OtherError"

definition no_png :: "buffer \<Rightarrow> error + metadata option" where
  "no_png buf = Inr (Some Map.empty)"

definition no_exif :: exif_reader where
  "no_exif buf start = Inr ExifFalse"

section \<open>The fallback chain of parceMetadata\<close>

text \<open>
  C6. When the metadata has neither a truthy \<open>parameters\<close> nor a truthy \<open>prompt\<close> value
  (the object is missing, the key is missing, or the value is the empty string, zero or
  undefined), parceMetadata returns the report with the single entry \<open>Error\<close> whose
  value is "No parameters or prompt sections in metadata", and runs no parser. The PNG
  path and the EXIF path both end in parceMetadata; the EXIF path gives it the empty
  mapping when the Exif directory has no entry.
\<close>

theorem parceMetadata_no_sections:
  assumes "\<not> truthy (field md ''parameters'')" and "\<not> truthy (field md ''prompt'')"
  shows "parceMetadata e comfy md =
           ([(''Error'', ''No parameters or prompt sections in metadata'')], [])"
  using assms by (simp add: parceMetadata_def set_prop_def)

theorem parceMetadata_no_sections_witness:
  "\<not> truthy (field (Some [''parameters'' \<mapsto> JStr []]) ''parameters'')
   \<and> \<not> truthy (field (Some [''parameters'' \<mapsto> JStr []]) ''prompt'')
   \<and> parceMetadata plain_env no_comfy (Some [''parameters'' \<mapsto> JStr []]) =
           ([(''Error'', ''No parameters or prompt sections in metadata'')], [])
   \<and> \<not> truthy (field (Some (parameters_of [])) ''parameters'')
   \<and> \<not> truthy (field (Some (parameters_of [])) ''prompt'')
   \<and> parceMetadata plain_env no_comfy (Some (parameters_of [])) =
           ([(''Error'', ''No parameters or prompt sections in metadata'')], [])"
  using parceMetadata_no_sections [of "Some [''parameters'' \<mapsto> JStr []]" plain_env no_comfy]
    parceMetadata_no_sections [of "Some (parameters_of [])" plain_env no_comfy]
  by (simp add: field_def parameters_of_def)

text \<open>
  C10. When both \<open>parameters\<close> and \<open>prompt\<close> are truthy and the Forge parse does not
  throw, parceMetadata returns the Forge parser's output and the only parser run is the
  Forge one. Whenever the Comfy parser is run, \<open>parameters\<close> was falsy or its parse threw.
\<close>

theorem parceMetadata_forge_first:
  "(truthy (field md ''parameters'') \<and> truthy (field md ''prompt'')
      \<and> forge_parcer e (field md ''parameters'') = Inr out
    \<longrightarrow> parceMetadata e comfy md = (out, [ForgeCall]))
   \<and> (ComfyCall \<in> set (snd (parceMetadata e comfy md))
    \<longrightarrow> \<not> truthy (field md ''parameters'')
        \<or> (\<exists>err. forge_parcer e (field md ''parameters'') = Inl err))"
  by (auto simp: parceMetadata_def Let_def split: option.splits sum.splits if_splits)

text \<open>
  The end-to-end scenario of the specification: the positive prompt without its style
  reference, the negative prompt, the reference, the two settings, and the report in
  its order, the number and the model name in their styles.
\<close>

lemma run_scenario:
  \<open>run plain_env ''a cat, <lora:bestlora:0.8>\<newline>Negative prompt: blurry\<newline>Steps: 30, Model: "realisticVision"''
   = \<lparr>positive = ''a cat,'', negative = ''blurry'', lora = Some [''<lora:bestlora:0.8>''],
      params = [\<lparr>key = ''Steps'', val = ''30''\<rparr>, \<lparr>key = ''Model'', val = ''realisticVision''\<rparr>],
      output_report =
        [(''Prompt:<br>'', ''a cat,''), (''Negative Prompt:<br>'', ''blurry''),
         (''LoRA:'', ''<br>&ltlora:[f]bestlora[d]:[i]0.8[d]&gt''),
         (''Steps: '', ''[i]30''), (''Model: '', ''[f]realisticVision'')]\<rparr>\<close>
  by code_simp

lemma run_a_cat: "output_report (run plain_env ''a cat'') = [(''Prompt:<br>'', ''a cat'')]"
  by code_simp

theorem parceMetadata_forge_first_witness:
  "truthy (field (Some [''parameters'' \<mapsto> JStr ''a cat'', ''prompt'' \<mapsto> JStr ''{}'']) ''parameters'')
   \<and> truthy (field (Some [''parameters'' \<mapsto> JStr ''a cat'', ''prompt'' \<mapsto> JStr ''{}'']) ''prompt'')
   \<and> forge_parcer plain_env (JStr ''a cat'') = Inr [(''Prompt:<br>'', ''a cat'')]
   \<and> parceMetadata plain_env no_comfy
         (Some [''parameters'' \<mapsto> JStr ''a cat'', ''prompt'' \<mapsto> JStr ''{}''])
       = ([(''Prompt:<br>'', ''a cat'')], [ForgeCall])
   \<and> ComfyCall \<in> set (snd (parceMetadata plain_env no_comfy (Some [''prompt'' \<mapsto> JStr ''{}''])))
   \<and> \<not> truthy (field (Some [''prompt'' \<mapsto> JStr ''{}'']) ''parameters'')"
proof -
  have f: "forge_parcer plain_env (JStr ''a cat'') = Inr [(''Prompt:<br>'', ''a cat'')]"
    by (simp add: forge_parcer_def run_a_cat)
  have c: "ComfyCall \<in> set (snd (parceMetadata plain_env no_comfy (Some [''prompt'' \<mapsto> JStr ''{}''])))"
    by (simp add: parceMetadata_def field_def no_comfy_def Let_def set_prop_def)
  show ?thesis
    using f c
      parceMetadata_forge_first
        [of "Some [''parameters'' \<mapsto> JStr ''a cat'', ''prompt'' \<mapsto> JStr ''{}'']" plain_env
            "[(''Prompt:<br>'', ''a cat'')]" no_comfy]
      parceMetadata_forge_first [of "Some [''prompt'' \<mapsto> JStr ''{}'']" plain_env "[]" no_comfy]
    by (simp add: field_def)
qed

section \<open>The JPEG marker scan\<close>

lemma unat_byte_eq: "(unat (a :: 8 word) = 255) = (a = 0xFF)" "(unat a = 216) = (a = 0xD8)"
  by (simp_all add: word_unat_eq_iff)

text \<open>
  The loop always returns: each round moves the offset forward by 2 plus the declared
  length, so by at least 2, and it stops once the offset reaches the length.
\<close>

lemma skip_segments_returns: "\<exists>r. skip_segments rd buf off = Some r"
proof (induction "length buf - off" arbitrary: off rule: less_induct)
  case less
  show ?case
  proof (cases "off < length buf")
    case False
    then show ?thesis by (subst skip_segments.simps) simp
  next
    case True
    have step: "\<exists>r. skip_segments rd buf (off + (2 + n)) = Some r" for n
      using less [of "off + (2 + n)"] True by simp
    show ?thesis
      apply (subst skip_segments.simps)
      using step by (auto split: sum.splits)
  qed
qed

lemma unat_byte_255: "(unat (a :: 8 word) \<noteq> 255) = (a \<noteq> 0xFF)"
  by (simp add: unat_byte_eq)

lemma unat_byte_225: "(unat (a :: 8 word) = 225) = (a = 0xE1)"
  by (simp add: word_unat_eq_iff)

lemma skip_segments_end:
  "length buf \<le> off \<Longrightarrow> skip_segments rd buf off = Some (Inr ExifUndefined)"
  by (subst skip_segments.simps) simp

lemma skip_segments_not_marker:
  "off < length buf \<Longrightarrow> buf ! off \<noteq> 0xFF \<Longrightarrow> skip_segments rd buf off = Some (Inr ExifFalse)"
  by (subst skip_segments.simps) (simp add: getUint8_def unat_byte_eq)

lemma skip_segments_truncated:
  assumes "off < length buf" and "buf ! off = 0xFF" and "length buf < off + 4"
  shows "skip_segments rd buf off = Some (Inl RangeError)"
  using assms
  by (subst skip_segments.simps) (simp add: getUint8_def getUint16_def)

lemma skip_segments_found:
  assumes "off + 4 \<le> length buf" and "buf ! off = 0xFF" and "buf ! (off + 1) = 0xE1"
  shows "skip_segments rd buf off = Some (rd buf (off + 4))"
  using assms
  by (subst skip_segments.simps) (simp add: getUint8_def getUint16_def)

lemma skip_segments_skip:
  assumes "off + 4 \<le> length buf" and "buf ! off = 0xFF" and "buf ! (off + 1) \<noteq> 0xE1"
  shows "skip_segments rd buf off = skip_segments rd buf (off + 2 + segment_length buf off)"
  using assms
  by (subst skip_segments.simps)
    (simp add: getUint8_def getUint16_def segment_length_def unat_byte_225 add.assoc)

lemma skip_segments_short_length:
  assumes "off + 4 \<le> length buf" and "buf ! off = 0xFF" and "buf ! (off + 1) \<noteq> 0xE1"
    and "segment_length buf off < 2"
  shows "skip_segments rd buf off = Some (Inr ExifFalse)"
proof -
  from assms(1) have l: "segment_length buf off = 256 * unat (buf ! (off + 2)) + unat (buf ! (off + 3))"
    by (simp add: segment_length_def getUint16_def add.assoc numeral_Bit1 numeral_Bit0)
  with assms(4) have hi: "unat (buf ! (off + 2)) = 0" and lo: "unat (buf ! (off + 3)) < 2"
    by simp_all
  from l hi have s: "segment_length buf off = unat (buf ! (off + 3))" by simp
  have "unat (buf ! (off + 2 + segment_length buf off)) \<noteq> 255"
  proof (cases "unat (buf ! (off + 3)) = 0")
    case True
    with s hi show ?thesis by simp
  next
    case False
    with lo have one: "unat (buf ! (off + 3)) = 1" by simp
    with s have "off + 2 + segment_length buf off = off + 3" by simp
    then have "unat (buf ! (off + 2 + segment_length buf off)) = unat (buf ! (off + 3))"
      by (simp only:)
    also have "\<dots> = 1" by (rule one)
    finally show ?thesis by simp
  qed
  then have "buf ! (off + 2 + segment_length buf off) \<noteq> 0xFF"
    by (simp add: unat_byte_eq(1))
  moreover from s lo assms(1) have "off + 2 + segment_length buf off < length buf" by simp
  ultimately have "skip_segments rd buf (off + 2 + segment_length buf off) = Some (Inr ExifFalse)"
    by (rule skip_segments_not_marker [rotated])
  with skip_segments_skip [OF assms(1-3)] show ?thesis by simp
qed

lemma readEXIFMetadata_loop:
  "take 2 buf = [0xFF, 0xD8] \<Longrightarrow> readEXIFMetadata rd buf = skip_segments rd buf 2"
  by (cases buf; cases "tl buf") (auto simp: readEXIFMetadata_def getUint8_def)

text \<open>
  C4, as the code has it. The loop always returns, whatever the buffer: it never loops
  forever. A round at an offset inside the buffer returns false when the byte there is
  not FF; when it is FF and four bytes are there, the round returns what readEXIFData
  returns for the marker E1, and for any other marker goes on at the offset plus 2 plus
  the declared length, which is further by at least 2 whatever the declared length;
  a declared length below 2 makes the loop return false, in bounds. The loop has no
  bounds check: when the FF is one of the last three bytes of the buffer, the round
  reads past the end, which DataView answers with a RangeError. readEXIFMetadata enters
  the loop at offset 2 when the buffer starts with FF D8.
\<close>

theorem skip_segments_progress_and_bounds:
  "(\<exists>r. skip_segments rd buf off = Some r)
   \<and> (length buf \<le> off \<longrightarrow> skip_segments rd buf off = Some (Inr ExifUndefined))
   \<and> (off < length buf \<and> buf ! off \<noteq> 0xFF \<longrightarrow>
        skip_segments rd buf off = Some (Inr ExifFalse))
   \<and> (off < length buf \<and> buf ! off = 0xFF \<and> length buf < off + 4 \<longrightarrow>
        skip_segments rd buf off = Some (Inl RangeError))
   \<and> (off + 4 \<le> length buf \<and> buf ! off = 0xFF \<and> buf ! (off + 1) = 0xE1 \<longrightarrow>
        skip_segments rd buf off = Some (rd buf (off + 4)))
   \<and> (off + 4 \<le> length buf \<and> buf ! off = 0xFF \<and> buf ! (off + 1) \<noteq> 0xE1 \<longrightarrow>
        skip_segments rd buf off = skip_segments rd buf (off + 2 + segment_length buf off)
        \<and> (segment_length buf off < 2 \<longrightarrow> skip_segments rd buf off = Some (Inr ExifFalse)))
   \<and> (take 2 buf = [0xFF, 0xD8] \<longrightarrow> readEXIFMetadata rd buf = skip_segments rd buf 2)"
  using skip_segments_returns [of rd buf off] skip_segments_end [of buf off rd]
    skip_segments_not_marker [of off buf rd] skip_segments_truncated [of off buf rd]
    skip_segments_found [of off buf rd] skip_segments_skip [of off buf rd]
    skip_segments_short_length [of off buf rd] readEXIFMetadata_loop [of buf rd]
  by (intro conjI impI) blast+

theorem skip_segments_progress_and_bounds_witness:
  "(\<exists>r. skip_segments no_exif [0xFF, 0xD8, 0xFF, 0xE0, 0, 2, 0xFF] 2 = Some r)
   \<and> skip_segments no_exif [0xFF, 0xD8, 0xFF, 0xE0, 0, 2, 0xFF] 7 = Some (Inr ExifUndefined)
   \<and> skip_segments no_exif [0xFF, 0xD8, 0] 2 = Some (Inr ExifFalse)
   \<and> segment_length [0xFF, 0xD8, 0xFF, 0xE0, 0, 2, 0xFF] 2 = 2
   \<and> skip_segments no_exif [0xFF, 0xD8, 0xFF, 0xE0, 0, 2, 0xFF] 2
       = skip_segments no_exif [0xFF, 0xD8, 0xFF, 0xE0, 0, 2, 0xFF] 6
   \<and> skip_segments no_exif [0xFF, 0xD8, 0xFF, 0xE0, 0, 2, 0xFF] 6 = Some (Inl RangeError)
   \<and> readEXIFMetadata no_exif [0xFF, 0xD8, 0xFF, 0xE0, 0, 2, 0xFF] = Some (Inl RangeError)
   \<and> skip_segments no_exif [0xFF, 0xD8, 0xFF, 0xE1, 0, 2] 2
       = Some (no_exif [0xFF, 0xD8, 0xFF, 0xE1, 0, 2] 6)
   \<and> segment_length [0xFF, 0xD8, 0xFF, 0xE0, 0, 0] 2 = 0
   \<and> skip_segments no_exif [0xFF, 0xD8, 0xFF, 0xE0, 0, 0] 2 = Some (Inr ExifFalse)"
proof -
  let ?t = "[0xFF, 0xD8, 0xFF, 0xE0, 0, 2, 0xFF] :: buffer"
  let ?z = "[0xFF, 0xD8, 0xFF, 0xE0, 0, 0] :: buffer"
  let ?e = "[0xFF, 0xD8, 0xFF, 0xE1, 0, 2] :: buffer"
  have l: "segment_length ?t 2 = 2" "segment_length ?z 2 = 0"
    by (simp_all add: segment_length_def getUint16_def)
  note t2 = skip_segments_progress_and_bounds [of no_exif ?t 2]
  from t2 have a: "(\<exists>r. skip_segments no_exif ?t 2 = Some r)" by blast
  have "2 + 4 \<le> length ?t \<and> ?t ! 2 = 0xFF \<and> ?t ! (2 + 1) \<noteq> 0xE1" by simp
  with t2 have "skip_segments no_exif ?t 2
                  = skip_segments no_exif ?t (2 + 2 + segment_length ?t 2)" by blast
  then have b: "skip_segments no_exif ?t 2 = skip_segments no_exif ?t 6"
    by (simp add: l)
  have "take 2 ?t = [0xFF, 0xD8]" by simp
  with t2 have c: "readEXIFMetadata no_exif ?t = skip_segments no_exif ?t 2" by blast
  have "length ?t \<le> 7" by simp
  with skip_segments_progress_and_bounds [of no_exif ?t 7]
  have d: "skip_segments no_exif ?t 7 = Some (Inr ExifUndefined)" by blast
  have "6 < length ?t \<and> ?t ! 6 = 0xFF \<and> length ?t < 6 + 4" by simp
  with skip_segments_progress_and_bounds [of no_exif ?t 6]
  have e: "skip_segments no_exif ?t 6 = Some (Inl RangeError)" by blast
  have "2 < length [0xFF, 0xD8, 0 :: 8 word] \<and> [0xFF, 0xD8, 0 :: 8 word] ! 2 \<noteq> 0xFF" by simp
  with skip_segments_progress_and_bounds [of no_exif "[0xFF, 0xD8, 0]" 2]
  have f: "skip_segments no_exif [0xFF, 0xD8, 0] 2 = Some (Inr ExifFalse)" by blast
  have "2 + 4 \<le> length ?e \<and> ?e ! 2 = 0xFF \<and> ?e ! (2 + 1) = 0xE1" by simp
  with skip_segments_progress_and_bounds [of no_exif ?e 2]
  have "skip_segments no_exif ?e 2 = Some (no_exif ?e (2 + 4))" by blast
  then have g: "skip_segments no_exif ?e 2 = Some (no_exif ?e 6)" by simp
  have "2 + 4 \<le> length ?z \<and> ?z ! 2 = 0xFF \<and> ?z ! (2 + 1) \<noteq> 0xE1
          \<and> segment_length ?z 2 < 2" by (simp add: l)
  with skip_segments_progress_and_bounds [of no_exif ?z 2]
  have h: "skip_segments no_exif ?z 2 = Some (Inr ExifFalse)" by blast
  from b c e have i: "readEXIFMetadata no_exif ?t = Some (Inl RangeError)" by simp
  show ?thesis by (intro conjI a d f l b e i g h)
qed

text \<open>
  C4, as the claim states it, fails: no reader, buffer and offset make the loop run
  forever, and a declared length below 2, which the loop does not check, is no way past
  the buffer end either. With the declared length 0 or 1 the next round reads a byte of
  the length field, finds it is not FF and returns false.
\<close>

theorem skip_segments_no_hang_counterexample:
  "\<not> (\<exists>rd buf off. skip_segments rd buf off = None)
   \<and> skip_segments no_exif [0xFF, 0xD8, 0xFF, 0xE0, 0, 0] 2 = Some (Inr ExifFalse)
   \<and> skip_segments no_exif [0xFF, 0xD8, 0xFF, 0xE0, 0, 1] 2 = Some (Inr ExifFalse)"
proof (intro conjI notI)
  assume "\<exists>rd buf off. skip_segments rd buf off = None"
  then obtain rd buf off where "skip_segments rd buf off = None" by blast
  with skip_segments_returns [of rd buf off] show False by simp
next
  show "skip_segments no_exif [0xFF, 0xD8, 0xFF, 0xE0, 0, 0] 2 = Some (Inr ExifFalse)"
    by (simp add: skip_segments.simps getUint8_def getUint16_def)
next
  show "skip_segments no_exif [0xFF, 0xD8, 0xFF, 0xE0, 0, 1] 2 = Some (Inr ExifFalse)"
    by (simp add: skip_segments.simps getUint8_def getUint16_def)
qed

text \<open>
  C5. For a JPEG file whose bytes do not start with FF D8 (shorter buffers included),
  readMetadata returns a value, and its report is empty. When the buffer has two bytes or
  more, readEXIFMetadata itself returns false without an exception.
\<close>

theorem readMetadata_not_a_jpeg:
  assumes "take 2 (bytes f) \<noteq> [0xFF, 0xD8]" and "ftype f = ''image/jpeg''"
  shows "(\<exists>t. readMetadata e comfy png rd f = Some \<lparr>metadata_report = [], toasts = t\<rparr>)
       \<and> (2 \<le> length (bytes f) \<longrightarrow> readEXIFMetadata rd (bytes f) = Some (Inr ExifFalse))"
proof (cases "bytes f")
  case Nil
  with assms show ?thesis
    by (simp add: readMetadata_def readEXIFMetadata_def getUint8_def)
next
  case (Cons a r)
  show ?thesis
  proof (cases r)
    case Nil
    with Cons assms show ?thesis
      by (simp add: readMetadata_def readEXIFMetadata_def getUint8_def spread_def)
  next
    case (Cons b r')
    with \<open>bytes f = a # r\<close> assms have "a \<noteq> 0xFF \<or> b \<noteq> 0xD8" by auto
    then have "readEXIFMetadata rd (a # b # r') = Some (Inr ExifFalse)"
      by (auto simp: readEXIFMetadata_def getUint8_def unat_byte_eq)
    with Cons \<open>bytes f = a # r\<close> assms show ?thesis
      by (simp add: readMetadata_def spread_def)
  qed
qed

theorem readMetadata_not_a_jpeg_witness:
  "take 2 [0x89, 0x50, 0x4E, 0x47 :: 8 word] \<noteq> [0xFF, 0xD8]
   \<and> (\<exists>t. readMetadata plain_env no_comfy no_png no_exif
             \<lparr>ftype = ''image/jpeg'', bytes = [0x89, 0x50, 0x4E, 0x47]\<rparr>
           = Some \<lparr>metadata_report = [], toasts = t\<rparr>)
   \<and> readEXIFMetadata no_exif [0x89, 0x50, 0x4E, 0x47] = Some (Inr ExifFalse)"
  using readMetadata_not_a_jpeg
    [of "\<lparr>ftype = ''image/jpeg'', bytes = [0x89, 0x50, 0x4E, 0x47]\<rparr>"
        plain_env no_comfy no_png no_exif]
  by simp

section \<open>The TIFF directory reader\<close>

lemma bind_Inr_iff: "bind r f = Inr y \<longleftrightarrow> (\<exists>x. r = Inr x \<and> f x = Inr y)"
  by (cases r) (simp_all add: bind_def)

lemma read_chars_in_bounds:
  "n + k \<le> length buf \<Longrightarrow>
     read_chars buf n k = Inr (map (\<lambda>b. char_of (unat b)) (take k (drop n buf)))"
proof (induction k arbitrary: n)
  case 0
  then show ?case by simp
next
  case (Suc k)
  then have "n < length buf" and "Suc n + k \<le> length buf" by simp_all
  moreover from \<open>n < length buf\<close> have "drop n buf = buf ! n # drop (Suc n) buf"
    by (simp add: Cons_nth_drop_Suc)
  ultimately show ?case using Suc.IH [of "Suc n"]
    by (simp add: bind_def getUint8_def)
qed

text \<open>
  What readTagValue returns for a type 7 entry with count \<open>n\<close>: with the value bytes
  starting at \<open>offset\<close>, the \<open>n - 8\<close> bytes from \<open>offset + 7\<close> on. These are the value
  bytes 7 to \<open>n - 2\<close>: the last byte of the 8-byte prefix is kept and the last value
  byte is left out.
\<close>

lemma readTagValue_blob:
  assumes "getUint16 buf (entryOffset + 2) (\<not> bigEnd) = Inr 7"
    and "getUint32 buf (entryOffset + 4) (\<not> bigEnd) = Inr n"
    and "getUint32 buf (entryOffset + 8) (\<not> bigEnd) = Inr v"
    and "offset = (if n > 4 then v + tiffStart else entryOffset + 8)"
    and "offset + 7 + (n - 8) \<le> length buf"
  shows "readTagValue buf entryOffset tiffStart dirStart bigEnd =
           Inr (JStr (map (\<lambda>b. char_of (unat b)) (take (n - 8) (drop (offset + 7) buf))))"
proof -
  have "nat (int n - 8) = n - 8" by simp
  with assms show ?thesis
    by (simp add: readTagValue_def bind_def getStringFromDB_def read_chars_in_bounds)
qed

text \<open>
  C3. A big-endian type 7 entry with count 12 whose value, at offset 12, is the eight
  bytes \<open>ASCII\0\0\0\<close> followed by \<open>ABCD\<close>: the count is above 4, so the value is read at
  \<open>tiffStart\<close> plus the value field, as the claim says. readTagValue returns the four
  characters NUL, A, B, C; the value bytes without their first eight are \<open>ABCD\<close>.
\<close>

theorem readTagValue_blob_window:
  "readTagValue [0x92, 0x86, 0, 7, 0, 0, 0, 12, 0, 0, 0, 12,
                 0x41, 0x53, 0x43, 0x49, 0x49, 0, 0, 0, 0x41, 0x42, 0x43, 0x44] 0 0 0 True
   = Inr (JStr [CHR 0x00, CHR ''A'', CHR ''B'', CHR ''C''])"
proof -
  let ?buf = "[0x92, 0x86, 0, 7, 0, 0, 0, 12, 0, 0, 0, 12,
               0x41, 0x53, 0x43, 0x49, 0x49, 0, 0, 0, 0x41, 0x42, 0x43, 0x44] :: buffer"
  have "readTagValue ?buf 0 0 0 True =
          Inr (JStr (map (\<lambda>b. char_of (unat b)) (take (12 - 8) (drop (12 + 7) ?buf))))"
    by (rule readTagValue_blob [where n = 12 and v = 12])
      (simp_all add: getUint16_def getUint32_def)
  moreover have "char_of (0::nat) = CHR 0x00 \<and> char_of (65::nat) = CHR ''A''
                   \<and> char_of (66::nat) = CHR ''B'' \<and> char_of (67::nat) = CHR ''C''"
    by code_simp
  ultimately show ?thesis by simp
qed

lemma read_entries_keys:
  "read_entries buf tiffStart dirStart strings bigEnd i entries tags = Inr res \<Longrightarrow>
     fst ` set res =
       fst ` set tags \<union> (\<lambda>j. tag_name strings (entry_tag buf dirStart bigEnd j)) ` {i..<entries}"
proof (induction buf tiffStart dirStart strings bigEnd i entries tags
        rule: read_entries.induct)
  case (1 buf tiffStart dirStart strings bigEnd i entries tags)
  show ?case
  proof (cases "i < entries")
    case False
    with "1.prems" show ?thesis by (simp add: read_entries.simps)
  next
    case True
    from "1.prems" True obtain tagid v where
      t: "getUint16 buf (dirStart + i * 12 + 2) (\<not> bigEnd) = Inr tagid"
      and r: "read_entries buf tiffStart dirStart strings bigEnd (i + 1) entries
                (AList.update (tag_name strings tagid) v tags) = Inr res"
      by (subst (asm) read_entries.simps) (auto simp: bind_Inr_iff Let_def)
    from "1.IH" [OF True refl r]
    have "fst ` set res =
            fst ` set (AList.update (tag_name strings tagid) v tags)
            \<union> (\<lambda>j. tag_name strings (entry_tag buf dirStart bigEnd j)) ` {i + 1..<entries}" .
    moreover have "entry_tag buf dirStart bigEnd i = tagid"
      using t by (simp add: entry_tag_def)
    moreover have "{i..<entries} = insert i {i + 1..<entries}"
      using True by auto
    ultimately show ?thesis
      by (simp add: dom_update)
  qed
qed

lemma tag_name_cases: "tag_name strings i \<in> insert ''undefined'' (ran strings)"
  by (auto simp: tag_name_def ran_def split: option.splits)

text \<open>
  The keys that readTags leaves. When readTags returns, the keys of the mapping are
  exactly the keys of the entries it read, where an entry whose tag id is in the table
  has the table's name as key and an entry whose tag id is not in the table has the key
  \<open>undefined\<close>.
\<close>

lemma readTags_keys:
  assumes "readTags buf tiffStart dirStart strings bigEnd = Inr res"
  shows "\<exists>entries. getUint16 buf dirStart (\<not> bigEnd) = Inr entries
           \<and> fst ` set res =
               (\<lambda>j. tag_name strings (entry_tag buf dirStart bigEnd j)) ` {0..<entries}
           \<and> fst ` set res \<subseteq> insert ''undefined'' (ran strings)"
proof -
  from assms obtain entries where
    n: "getUint16 buf dirStart (\<not> bigEnd) = Inr entries"
    and r: "read_entries buf tiffStart dirStart strings bigEnd 0 entries [] = Inr res"
    by (auto simp: readTags_def bind_Inr_iff)
  from read_entries_keys [OF r]
  have k: "fst ` set res =
             (\<lambda>j. tag_name strings (entry_tag buf dirStart bigEnd j)) ` {0..<entries}"
    by simp
  have "(\<lambda>j. tag_name strings (entry_tag buf dirStart bigEnd j)) ` {0..<entries}
          \<subseteq> insert ''undefined'' (ran strings)"
    using tag_name_cases [of strings] by (rule image_subsetI)
  with n k show ?thesis by simp
qed

text \<open>
  C9. An Exif directory of two entries, UserComment (0x9286) and then the tag 0xA001,
  which the table does not have, both of type 4 with count 1. The entry of the unknown
  tag is not ignored: its value is stored under the key \<open>undefined\<close>, which is no name
  of the table, so the mapping has a second key. The loop that takes the annotation
  from the mapping then ends with the value of that entry, 1, in place of the
  UserComment, and parceMetadata reports an error in the parameters section.
\<close>

theorem readTags_unknown_tag:
  "readTags [0, 2, 0x92, 0x86, 0, 4, 0, 0, 0, 1, 0, 0, 0, 9,
                   0xA0, 0x01, 0, 4, 0, 0, 0, 1, 0, 0, 0, 1] 0 0 ExifTags True
     = Inr [(''UserComment'', JNum 9), (''undefined'', JNum 1)]
   \<and> ''undefined'' \<notin> ran ExifTags
   \<and> parameters_of [(''UserComment'', JNum 9), (''undefined'', JNum 1)] ''parameters''
       = Some (JNum 1)
   \<and> parceMetadata plain_env no_comfy
         (Some (parameters_of [(''UserComment'', JNum 9), (''undefined'', JNum 1)]))
       = ([(''Error'', ''Error in parameters section'')], [ForgeCall])"
  by (simp add: readTags_def read_entries.simps readTagValue_def getUint16_def getUint32_def
        bind_def tag_name_def ExifTags_def parameters_of_def parceMetadata_def field_def
        forge_parcer_def set_prop_def)

section \<open>The settings-line tokenizer\<close>

lemma count_list_dropWhile:
  "count_list (dropWhile (\<lambda>c. c \<noteq> q) s) q = count_list s q"
  by (induction s) auto

lemma dropWhile_neq_Cons: "dropWhile (\<lambda>c. c \<noteq> q) s = x # r \<Longrightarrow> x = q"
  using hd_dropWhile [of "\<lambda>c. c \<noteq> q" s] by auto

lemma lookahead_even: "lookahead s = even (count_list s dquote)"
proof (induction s rule: lookahead.induct)
  case (1 s)
  show ?case
  proof (cases "dropWhile (\<lambda>c. c \<noteq> dquote) s")
    case Nil
    then have "dquote \<notin> set s" by (auto simp: dropWhile_eq_Nil_conv)
    then have "count_list s dquote = 0" by (simp add: count_list_0_iff)
    then show ?thesis unfolding lookahead.simps [of s] Nil by simp
  next
    case (Cons q1 r1)
    then have q1: "q1 = dquote" by (rule dropWhile_neq_Cons)
    have s: "count_list s dquote = Suc (count_list r1 dquote)"
      using count_list_dropWhile [of dquote s] Cons q1 by simp
    show ?thesis
    proof (cases "dropWhile (\<lambda>c. c \<noteq> dquote) r1")
      case Nil
      then have "dquote \<notin> set r1" by (auto simp: dropWhile_eq_Nil_conv)
      then have "count_list r1 dquote = 0" by (simp add: count_list_0_iff)
      with s show ?thesis
        unfolding lookahead.simps [of s] \<open>dropWhile (\<lambda>c. c \<noteq> dquote) s = q1 # r1\<close>
        by (simp add: Nil)
    next
      case (Cons q2 r2)
      then have q2: "q2 = dquote" by (rule dropWhile_neq_Cons)
      have "count_list r1 dquote = Suc (count_list r2 dquote)"
        using count_list_dropWhile [of dquote r1] Cons q2 by simp
      with s "1.IH" [OF \<open>dropWhile (\<lambda>c. c \<noteq> dquote) s = q1 # r1\<close> Cons]
      show ?thesis
        unfolding lookahead.simps [of s] \<open>dropWhile (\<lambda>c. c \<noteq> dquote) s = q1 # r1\<close>
        by (simp add: Cons)
    qed
  qed
qed

lemma split_params_from_spec: "split_params_from cur s = spec_segments_from cur s"
  by (induction s arbitrary: cur) (simp_all add: lookahead_even comma_is_delimiter_def)

lemma slice_take: "k \<le> length xs \<Longrightarrow> slice xs 0 (int k) = take k xs"
  by (simp add: slice_def Let_def min_def)

lemma slice_from_drop: "slice_from xs (int k) = drop k xs"
  by (simp add: slice_from_def slice_def Let_def min_def)

lemma slice_strip: "slice xs 1 (- 1) = butlast (tl xs)"
proof (cases xs)
  case Nil
  then show ?thesis by (simp add: slice_def)
next
  case (Cons x r)
  have "nat (int (length r) - 1) = length r - 1" by arith
  with Cons show ?thesis
    by (simp add: slice_def Let_def butlast_conv_take max_def)
qed

lemma indexOf_char:
  "indexOf s [d] = (if d \<in> set s then Some (length (takeWhile (\<lambda>c. c \<noteq> d) s)) else None)"
  by (induction s) auto

lemma is_ws_colon: "\<not> is_ws CHR '':''"
  by (simp add: is_ws_def)

lemma trim_Nil_iff: "trim s = [] \<longleftrightarrow> (\<forall>c \<in> set s. is_ws c)"
proof (cases "dropWhile is_ws s")
  case Nil
  then have "\<forall>c \<in> set s. is_ws c" by (simp add: dropWhile_eq_Nil_conv)
  then show ?thesis unfolding trim_def Nil by simp
next
  case (Cons x r)
  then have "\<not> is_ws x" using hd_dropWhile [of is_ws s] by simp
  moreover have "x \<in> set s" using Cons set_dropWhileD [of x is_ws s] by simp
  ultimately show ?thesis using Cons by (auto simp: trim_def dropWhile_eq_Nil_conv)
qed

lemma parse_part_no_colon: "CHR '':'' \<notin> set seg \<Longrightarrow> parse_part seg = None"
  unfolding parse_part_def by (simp only: indexOf_char if_False option.case if_cancel)

lemma parse_part_colon:
  assumes "CHR '':'' \<in> set seg"
  shows "parse_part seg =
     Some \<lparr>key = trim (takeWhile (\<lambda>c. c \<noteq> CHR '':'') seg),
           val = strip_quotes (trim (tl (dropWhile (\<lambda>c. c \<noteq> CHR '':'') seg)))\<rparr>"
proof -
  let ?k = "length (takeWhile (\<lambda>c. c \<noteq> CHR '':'') seg)"
  from assms have nt: "trim seg \<noteq> []"
    using is_ws_colon by (auto simp: trim_Nil_iff)
  have k: "?k \<le> length seg" by (rule length_takeWhile_le)
  have t: "take ?k seg = takeWhile (\<lambda>c. c \<noteq> CHR '':'') seg"
    by (rule takeWhile_eq_take [symmetric])
  have d: "drop (Suc ?k) seg = tl (dropWhile (\<lambda>c. c \<noteq> CHR '':'') seg)"
    by (simp add: dropWhile_eq_drop drop_Suc tl_drop)
  have "int ?k + 1 = int (Suc ?k)" by simp
  then have v: "slice_from seg (int ?k + 1) = tl (dropWhile (\<lambda>c. c \<noteq> CHR '':'') seg)"
    using d by (simp only: slice_from_drop)
  have idx: "indexOf seg '':'' = Some ?k"
    using assms by (simp only: indexOf_char if_True)
  have ky: "slice seg 0 (int ?k) = takeWhile (\<lambda>c. c \<noteq> CHR '':'') seg"
    using k t by (simp only: slice_take)
  show ?thesis
    unfolding parse_part_def using nt by (simp only: idx ky v if_False option.case)
qed

lemma strip_quotes_pair: "v \<noteq> [dquote] \<Longrightarrow> strip_quotes v = strip_pair v"
proof (cases v)
  case Nil
  then show ?thesis by (simp add: strip_quotes_def strip_pair_def)
next
  case (Cons x r)
  assume "v \<noteq> [dquote]"
  with Cons show ?thesis
    by (cases r rule: rev_cases) (auto simp: strip_quotes_def strip_pair_def slice_strip suffix_def)
qed

text \<open>
  The code and the specification's tokenizer agree on every line in which no value is a
  lone double quote; the splitting and the keys agree on every line.
\<close>

lemma parseParameters_spec_tokenize:
  assumes "\<forall>seg \<in> set (split_params s).
             trim (tl (dropWhile (\<lambda>c. c \<noteq> CHR '':'') seg)) \<noteq> [dquote]"
  shows "parseParameters s = spec_tokenize s"
proof -
  have "parse_part seg = spec_entry seg" if "seg \<in> set (split_params s)" for seg
    using that assms
    by (cases "CHR '':'' \<in> set seg")
      (simp_all add: parse_part_no_colon parse_part_colon spec_entry_def strip_quotes_pair)
  then have "List.map_filter parse_part (split_params s)
               = List.map_filter spec_entry (split_params s)"
    by (simp add: List.map_filter_def cong: map_cong filter_cong)
  then show ?thesis
    by (simp add: parseParameters_def spec_tokenize_def split_params_def split_params_from_spec)
qed

lemma parseParameters_example:
  \<open>parseParameters ''Steps: 20, Sampler: "Euler a, fast", CFG scale: 7'' =
     [\<lparr>key = ''Steps'', val = ''20''\<rparr>, \<lparr>key = ''Sampler'', val = ''Euler a, fast''\<rparr>,
      \<lparr>key = ''CFG scale'', val = ''7''\<rparr>]\<close>
  by code_simp

text \<open>
  C2. On the line \<open>"k: "\<close> (five characters, two of them double quotes, no comma) the
  only segment is the line, its key is \<open>"k\<close> and the text after the colon, trimmed, is
  one double quote. The code finds that it starts and ends with a double quote and
  takes \<open>slice(1,-1)\<close> of it, the empty string; the tokenizer of the specification
  leaves the value as it is, since no pair wraps it.
\<close>

theorem parseParameters_lone_quote:
  \<open>parseParameters ''"k: "'' = [\<lparr>key = ''"k'', val = []\<rparr>]
    \<and> spec_tokenize ''"k: "'' = [\<lparr>key = ''"k'', val = ''"''\<rparr>]\<close>
  by code_simp

section \<open>Annotations of one line\<close>

lemma split_from_no_sep: "d \<notin> set s \<Longrightarrow> split_from d cur s = [cur @ s]"
  by (induction s arbitrary: cur) auto

lemma single_line:
  assumes "CHR 0x0A \<notin> set raw"
  shows "first_line raw = raw" and "last_line raw = raw"
  using assms
  by (simp_all add: first_line_def last_line_def lines_of_def split_on_def split_from_no_sep)

lemma split_params_from_chars:
  "seg \<in> set (split_params_from cur s) \<Longrightarrow> set seg \<subseteq> set cur \<union> set s"
proof (induction s arbitrary: cur)
  case Nil
  then show ?case by simp
next
  case (Cons c cs)
  show ?case
  proof (cases "c = CHR '','' \<and> lookahead cs")
    case True
    with Cons.prems have "seg = cur \<or> seg \<in> set (split_params_from [] cs)" by simp
    then show ?thesis using Cons.IH [of "[]"] by auto
  next
    case False
    with Cons.prems have "seg \<in> set (split_params_from (cur @ [c]) cs)" by auto
    then show ?thesis using Cons.IH [of "cur @ [c]"] by auto
  qed
qed

lemma parseParameters_no_colon:
  assumes "CHR '':'' \<notin> set s"
  shows "parseParameters s = []"
proof -
  have "parse_part seg = None" if "seg \<in> set (split_params s)" for seg
  proof -
    from that have "set seg \<subseteq> set s"
      using split_params_from_chars [of seg "[]" s] by (simp add: split_params_def)
    with assms have "CHR '':'' \<notin> set seg" by auto
    then show ?thesis by (rule parse_part_no_colon)
  qed
  then show ?thesis
    by (simp add: parseParameters_def List.map_filter_def filter_empty_conv)
qed

lemma set_prop_keys: "fst ` set (set_prop k v r) = insert k (fst ` set r)"
  by (simp add: set_prop_def dom_update)

lemma run_fields:
  "lora (run e raw) = match_lora (fst (split_prompt (first_line raw)))"
  "positive (run e raw) = cleanEdges e (remove_lora (fst (split_prompt (first_line raw))))"
  "negative (run e raw) = cleanEdges e (snd (split_prompt (first_line raw)))"
  by (simp_all add: run_def Let_def split: prod.split)

lemma params_run: "params (run e raw) = parseParameters (last_line raw)"
  by (simp add: run_def Let_def split: prod.split)

lemma report_keys_no_params:
  assumes "parseParameters (last_line raw) = []"
  shows "fst ` set (output_report (run e raw))
           \<subseteq> {''Prompt:<br>'', ''Negative Prompt:<br>'', ''LoRA:''}"
  using assms
  by (auto simp: run_def Let_def set_prop_keys split: prod.split option.split if_splits)

text \<open>
  C1, as the code has it. For an annotation of exactly one line (no line feed), that
  line is the prompt block and also the settings line: the settings list is the
  tokenizer's output on the line. When the line has no colon, the settings list is
  empty and the report has no settings entry: its keys are among those of the prompt,
  the negative prompt and the style references.
\<close>

theorem single_line_settings:
  assumes "CHR 0x0A \<notin> set raw"
  shows "first_line raw = raw \<and> last_line raw = raw
       \<and> params (run e raw) = parseParameters raw
       \<and> (CHR '':'' \<notin> set raw \<longrightarrow>
            params (run e raw) = []
            \<and> fst ` set (output_report (run e raw))
                 \<subseteq> {''Prompt:<br>'', ''Negative Prompt:<br>'', ''LoRA:''})"
proof -
  from assms have f: "first_line raw = raw" and l: "last_line raw = raw"
    by (rule single_line)+
  have p: "params (run e raw) = parseParameters raw"
    by (simp add: params_run l)
  have "params (run e raw) = []
        \<and> fst ` set (output_report (run e raw))
             \<subseteq> {''Prompt:<br>'', ''Negative Prompt:<br>'', ''LoRA:''}"
    if "CHR '':'' \<notin> set raw"
  proof -
    from that have n: "parseParameters raw = []" by (rule parseParameters_no_colon)
    then have "parseParameters (last_line raw) = []" by (simp add: l)
    then show ?thesis using n p by (simp add: report_keys_no_params)
  qed
  with f l p show ?thesis by blast
qed

theorem single_line_settings_witness:
  "CHR 0x0A \<notin> set ''a cat'' \<and> CHR '':'' \<notin> set ''a cat''
   \<and> first_line ''a cat'' = ''a cat'' \<and> last_line ''a cat'' = ''a cat''
   \<and> params (run plain_env ''a cat'') = []
   \<and> fst ` set (output_report (run plain_env ''a cat''))
        \<subseteq> {''Prompt:<br>'', ''Negative Prompt:<br>'', ''LoRA:''}
   \<and> CHR 0x0A \<notin> set ''Steps: 20''
   \<and> params (run plain_env ''Steps: 20'') = parseParameters ''Steps: 20''"
proof -
  have a: "CHR 0x0A \<notin> set ''a cat''" "CHR '':'' \<notin> set ''a cat''"
    "CHR 0x0A \<notin> set ''Steps: 20''"
    by simp_all
  from single_line_settings [OF a(1), of plain_env] a(2)
  have "first_line ''a cat'' = ''a cat'' \<and> last_line ''a cat'' = ''a cat''
        \<and> params (run plain_env ''a cat'') = []
        \<and> fst ` set (output_report (run plain_env ''a cat''))
             \<subseteq> {''Prompt:<br>'', ''Negative Prompt:<br>'', ''LoRA:''}"
    by blast
  moreover from single_line_settings [OF a(3), of plain_env]
  have "params (run plain_env ''Steps: 20'') = parseParameters ''Steps: 20''"
    by blast
  ultimately show ?thesis using a by blast
qed

text \<open>
  C1, as the claim states it, fails on the one-line annotation \<open>Steps: 20\<close>: the line is
  tokenized, the settings list has the entry \<open>Steps\<close>, and the report has it too.
\<close>

theorem single_line_settings_counterexample:
  "params (run plain_env ''Steps: 20'') = [\<lparr>key = ''Steps'', val = ''20''\<rparr>]
   \<and> output_report (run plain_env ''Steps: 20'')
       = [(''Prompt:<br>'', ''Steps: 20''), (''Steps: '', ''[i]20'')]"
  by code_simp
section \<open>The prompt block and its two prompts\<close>

lemma split_from_nonempty: "split_from d cur s \<noteq> []"
  by (induction s arbitrary: cur) auto

lemma join_Cons: "xs \<noteq> [] \<Longrightarrow> join d (x # xs) = x @ d @ join d xs"
  by (cases xs) auto

lemma join_snoc: "xs \<noteq> [] \<Longrightarrow> join d (xs @ [x]) = join d xs @ d @ x"
  by (induction d xs rule: join.induct) auto

lemma join_split_from: "join [d] (split_from d cur s) = cur @ s"
  by (induction s arbitrary: cur) (simp_all add: join_Cons split_from_nonempty)

lemma slice_butlast: "slice xs 0 (- 1) = butlast xs"
proof -
  have "nat (max (int (length xs) - 1) 0) = length xs - 1" by arith
  then show ?thesis by (simp add: slice_def Let_def butlast_conv_take)
qed

lemma first_last_line:
  assumes "length (lines_of raw) > 1"
  shows "raw = first_line raw @ [CHR 0x0A] @ last_line raw"
proof -
  let ?ls = "lines_of raw"
  from assms have ne: "?ls \<noteq> []" and b: "butlast ?ls \<noteq> []"
    by (auto simp: butlast_conv_take)
  from ne have "?ls = butlast ?ls @ [last ?ls]" by simp
  then have "join [CHR 0x0A] ?ls = join [CHR 0x0A] (butlast ?ls) @ [CHR 0x0A] @ last ?ls"
    using join_snoc [OF b, of "[CHR 0x0A]" "last ?ls"] by simp
  moreover have "join [CHR 0x0A] ?ls = raw"
    by (simp add: lines_of_def split_on_def join_split_from)
  moreover have "first_line raw = join [CHR 0x0A] (butlast ?ls)"
    using assms by (simp add: first_line_def Let_def slice_butlast)
  moreover have "last_line raw = last ?ls"
    using ne by (simp add: last_line_def Let_def last_conv_nth)
  ultimately show ?thesis by simp
qed

lemma split_from_length: "length (split_from d cur s) = Suc (count_list s d)"
  by (induction s arbitrary: cur) auto

lemma split_from_pieces:
  "x \<in> set (split_from d cur s) \<Longrightarrow> d \<notin> set cur \<Longrightarrow> d \<notin> set x"
proof (induction s arbitrary: cur)
  case Nil
  then show ?case by simp
next
  case (Cons c cs)
  show ?case
  proof (cases "c = d")
    case True
    with Cons.prems have "x = cur \<or> x \<in> set (split_from d [] cs)" by simp
    then show ?thesis using Cons.prems(2) Cons.IH [of "[]"] by auto
  next
    case False
    with Cons.prems have "x \<in> set (split_from d (cur @ [c]) cs)" by simp
    moreover from False Cons.prems(2) have "d \<notin> set (cur @ [c])" by simp
    ultimately show ?thesis by (rule Cons.IH)
  qed
qed

lemma several_lines:
  assumes "CHR 0x0A \<in> set raw"
  shows "raw = first_line raw @ [CHR 0x0A] @ last_line raw"
    and "CHR 0x0A \<notin> set (last_line raw)"
proof -
  from assms have "count_list raw CHR 0x0A \<noteq> 0" by (simp add: count_list_0_iff)
  then have l: "length (lines_of raw) > 1"
    by (simp add: lines_of_def split_on_def split_from_length)
  then show "raw = first_line raw @ [CHR 0x0A] @ last_line raw" by (rule first_last_line)
  from l have "lines_of raw \<noteq> []" by auto
  with l have "last_line raw \<in> set (lines_of raw)"
    by (simp add: last_line_def Let_def)
  then show "CHR 0x0A \<notin> set (last_line raw)"
    using split_from_pieces [of "last_line raw" "CHR 0x0A" "[]" raw]
    by (simp add: lines_of_def split_on_def)
qed

lemma first_line_prefix: "prefix (first_line raw) raw"
proof (cases "length (lines_of raw) > 1")
  case True
  then show ?thesis using first_last_line [OF True] by (metis prefixI)
next
  case False
  moreover have "lines_of raw \<noteq> []"
    by (simp add: lines_of_def split_on_def split_from_nonempty)
  ultimately have one: "length (lines_of raw) = 1"
    by (cases "lines_of raw") auto
  then obtain x where x: "lines_of raw = [x]"
    by (cases "lines_of raw") auto
  have "join [CHR 0x0A] (lines_of raw) = raw"
    by (simp add: lines_of_def split_on_def join_split_from)
  with x have "x = raw" by simp
  with x show ?thesis by (simp add: first_line_def)
qed

lemma indexOf_None_iff: "indexOf s sep = None \<longleftrightarrow> \<not> sublist sep s"
  by (induction s) (auto simp: sublist_Cons_right)

lemma includes_str_sublist: "includes_str s sep = sublist sep s"
  by (simp add: includes_str_def indexOf_None_iff)

lemma indexOf_Some:
  assumes "indexOf s sep = Some i" and "sep \<noteq> []"
  shows "s = take i s @ sep @ drop (i + length sep) s
         \<and> \<not> sublist sep (take i s @ butlast sep)"
  using assms
proof (induction s arbitrary: i)
  case Nil
  then show ?case by simp
next
  case (Cons c cs)
  have short: "\<not> sublist sep (butlast sep)"
  proof
    assume "sublist sep (butlast sep)"
    then have "length sep \<le> length (butlast sep)" by (rule sublist_length_le)
    with \<open>sep \<noteq> []\<close> show False by (cases sep rule: rev_cases) auto
  qed
  show ?case
  proof (cases "prefix sep (c # cs)")
    case True
    with Cons.prems have "i = 0" by simp
    moreover from True obtain r where "c # cs = sep @ r" by (auto simp: prefix_def)
    ultimately show ?thesis using short by simp
  next
    case False
    with Cons.prems obtain j where j: "indexOf cs sep = Some j" and i: "i = Suc j"
      by auto
    from Cons.IH [OF j \<open>sep \<noteq> []\<close>]
    have d: "cs = take j cs @ sep @ drop (j + length sep) cs"
      and n: "\<not> sublist sep (take j cs @ butlast sep)" by simp_all
    have "\<not> prefix sep (c # take j cs @ butlast sep)"
    proof
      assume p: "prefix sep (c # take j cs @ butlast sep)"
      have "prefix (c # take j cs @ butlast sep) (c # take j cs @ sep @ drop (j + length sep) cs)"
        using \<open>sep \<noteq> []\<close> by (cases sep rule: rev_cases) (auto simp: prefix_def)
      with p have "prefix sep (c # take j cs @ sep @ drop (j + length sep) cs)"
        by (rule prefix_order.trans)
      with d False show False by simp
    qed
    with n have "\<not> sublist sep (c # take j cs @ butlast sep)"
      by (simp add: sublist_Cons_right)
    with d i show ?thesis by simp
  qed
qed

lemma separator_nonempty: "separator \<noteq> []"
  by (simp add: separator_def)

text \<open>
  C8, as the code has it. The prompt block is the annotation itself when it has one
  line, and otherwise all lines but the last, joined again: the annotation is the
  prompt block, a line feed and the last line. For an annotation without
  the marker "Negative prompt:", the negative prompt is empty and the positive prompt is
  the trimmed prompt block. When the marker is in the prompt block, the text before its
  first occurrence, trimmed, is the positive prompt and the text after it, trimmed, is
  the negative prompt. These are the prompts as run logs them; the fields \<open>positive\<close>
  and \<open>negative\<close> that run leaves are cleanEdges of the first without its style
  references and cleanEdges of the second.
\<close>

theorem prompt_split:
  "(\<not> includes_str raw separator \<longrightarrow>
       split_prompt (first_line raw) = (trim (first_line raw), []))
   \<and> (CHR 0x0A \<notin> set raw \<longrightarrow> first_line raw = raw)
   \<and> (CHR 0x0A \<in> set raw \<longrightarrow>
        raw = first_line raw @ [CHR 0x0A] @ last_line raw \<and> CHR 0x0A \<notin> set (last_line raw))
   \<and> (includes_str (first_line raw) separator \<longrightarrow>
       (\<exists>pre post. first_line raw = pre @ separator @ post
          \<and> \<not> includes_str (pre @ butlast separator) separator
          \<and> split_prompt (first_line raw) = (trim pre, trim post)))
   \<and> positive (run e raw) = cleanEdges e (remove_lora (fst (split_prompt (first_line raw))))
   \<and> negative (run e raw) = cleanEdges e (snd (split_prompt (first_line raw)))"
proof (intro conjI impI)
  assume "\<not> includes_str raw separator"
  then have "\<not> sublist separator raw" by (simp add: includes_str_sublist)
  moreover have "sublist (first_line raw) raw"
    using first_line_prefix by (rule prefix_imp_sublist)
  ultimately have "\<not> sublist separator (first_line raw)"
    by (meson sublist_order.order.trans)
  then have "indexOf (first_line raw) separator = None" by (simp add: indexOf_None_iff)
  then show "split_prompt (first_line raw) = (trim (first_line raw), [])"
    by (simp add: split_prompt_def)
next
  assume "CHR 0x0A \<notin> set raw"
  then show "first_line raw = raw" by (rule single_line(1))
next
  assume "CHR 0x0A \<in> set raw"
  then show "raw = first_line raw @ [CHR 0x0A] @ last_line raw" by (rule several_lines(1))
next
  assume "CHR 0x0A \<in> set raw"
  then show "CHR 0x0A \<notin> set (last_line raw)" by (rule several_lines(2))
next
  let ?fl = "first_line raw"
  assume "includes_str ?fl separator"
  then obtain i where i: "indexOf ?fl separator = Some i"
    by (auto simp: includes_str_def)
  let ?pre = "take i ?fl" and ?post = "drop (i + length separator) ?fl"
  from indexOf_Some [OF i separator_nonempty]
  have d: "?fl = ?pre @ separator @ ?post"
    and f: "\<not> sublist separator (?pre @ butlast separator)" by simp_all
  have "i \<le> length ?fl"
  proof (rule ccontr)
    assume "\<not> i \<le> length ?fl"
    then have "?pre = ?fl" by simp
    with d have "?fl = ?fl @ separator @ ?post" by (simp only:)
    then have "separator @ ?post = []" by (simp only: self_append_conv)
    then have "separator = []" by (simp only: append_is_Nil_conv)
    with separator_nonempty show False by (simp only:)
  qed
  then have p: "slice ?fl 0 (int i) = ?pre" by (rule slice_take)
  have "int i + int (length separator) = int (i + length separator)" by simp
  then have q: "slice_from ?fl (int i + int (length separator)) = ?post"
    by (simp only: slice_from_drop)
  have r: "split_prompt ?fl = (trim ?pre, trim ?post)"
    unfolding split_prompt_def by (simp only: i option.case p q)
  have n: "\<not> includes_str (?pre @ butlast separator) separator"
    using f by (simp add: includes_str_sublist)
  show "\<exists>pre post. ?fl = pre @ separator @ post
          \<and> \<not> includes_str (pre @ butlast separator) separator
          \<and> split_prompt ?fl = (trim pre, trim post)"
    by (intro exI conjI) (rule d, rule n, rule r)
next
  show "positive (run e raw) = cleanEdges e (remove_lora (fst (split_prompt (first_line raw))))"
    by (rule run_fields)
next
  show "negative (run e raw) = cleanEdges e (snd (split_prompt (first_line raw)))"
    by (rule run_fields)
qed

theorem prompt_split_witness:
  "\<not> includes_str ''a cat'' separator
   \<and> split_prompt (first_line ''a cat'') = (trim (first_line ''a cat''), [])
   \<and> CHR 0x0A \<notin> set ''a cat'' \<and> first_line ''a cat'' = ''a cat''
   \<and> CHR 0x0A \<in> set ''a cat\<newline>Negative prompt: blurry\<newline>Steps: 30''
   \<and> ''a cat\<newline>Negative prompt: blurry\<newline>Steps: 30''
       = first_line ''a cat\<newline>Negative prompt: blurry\<newline>Steps: 30'' @ [CHR 0x0A]
           @ last_line ''a cat\<newline>Negative prompt: blurry\<newline>Steps: 30''
   \<and> includes_str (first_line ''a cat\<newline>Negative prompt: blurry\<newline>Steps: 30'') separator
   \<and> (\<exists>pre post.
         first_line ''a cat\<newline>Negative prompt: blurry\<newline>Steps: 30''
           = pre @ separator @ post
         \<and> \<not> includes_str (pre @ butlast separator) separator
         \<and> split_prompt (first_line ''a cat\<newline>Negative prompt: blurry\<newline>Steps: 30'')
             = (trim pre, trim post))"
proof -
  have a: "\<not> includes_str ''a cat'' separator" by code_simp
  have b: "CHR 0x0A \<notin> set ''a cat''" by simp
  have c: "includes_str (first_line ''a cat\<newline>Negative prompt: blurry\<newline>Steps: 30'') separator"
    by code_simp
  have d: "CHR 0x0A \<in> set ''a cat\<newline>Negative prompt: blurry\<newline>Steps: 30''" by simp
  from prompt_split [of "''a cat''"] a b
    prompt_split [of "''a cat\<newline>Negative prompt: blurry\<newline>Steps: 30''"] c d
  show ?thesis by blast
qed

text \<open>
  C8, as the claim states it, fails on the annotation of the two lines \<open>a\<close> and \<open>b\<close>: it
  has no marker, its trimmed text is both lines, and the positive prompt is \<open>a\<close>, since
  the last line is taken as the settings line.
\<close>

theorem prompt_split_counterexample:
  "\<not> includes_str ''a\<newline>b'' separator
   \<and> fst (split_prompt (first_line ''a\<newline>b'')) = ''a''
   \<and> snd (split_prompt (first_line ''a\<newline>b'')) = []
   \<and> trim ''a\<newline>b'' = ''a\<newline>b''
   \<and> positive (run plain_env ''a\<newline>b'') = ''a''"
  by code_simp


section \<open>Style references\<close>

lemma is_span_iff:
  "is_span m \<longleftrightarrow> (\<exists>body. m = CHR ''<'' # body @ [CHR ''>''] \<and> body \<noteq> [] \<and> CHR ''>'' \<notin> set body)"
proof
  assume a: "is_span m"
  then obtain c r where m: "m = c # r" by (cases m) (auto simp: is_span_def)
  with a have "r \<noteq> []" by (auto simp: is_span_def)
  then obtain body z where r: "r = body @ [z]" by (cases r rule: rev_cases) auto
  with a m show "\<exists>body. m = CHR ''<'' # body @ [CHR ''>''] \<and> body \<noteq> [] \<and> CHR ''>'' \<notin> set body"
    by (auto simp: is_span_def)
next
  assume "\<exists>body. m = CHR ''<'' # body @ [CHR ''>''] \<and> body \<noteq> [] \<and> CHR ''>'' \<notin> set body"
  then show "is_span m" by (auto simp: is_span_def Suc_le_eq)
qed

lemma match_lora_at_Some:
  assumes "match_lora_at s = Some (m, rest)"
  shows "s = m @ rest" and "is_span m"
proof -
  from assms obtain c cs where s: "s = c # cs" by (cases s) (auto simp: match_lora_at_def)
  let ?b = "takeWhile (\<lambda>x. x \<noteq> CHR ''>'') cs" and ?r = "dropWhile (\<lambda>x. x \<noteq> CHR ''>'') cs"
  from assms s have c: "c = CHR ''<''" and b: "?b \<noteq> []" and r: "?r \<noteq> []"
    and m: "m = c # ?b @ [CHR ''>'']" and rest: "rest = tl ?r"
    by (auto simp: match_lora_at_def Let_def split: if_splits)
  from r have "hd ?r = CHR ''>''" using hd_dropWhile [of "\<lambda>x. x \<noteq> CHR ''>''" cs] by simp
  with r have "?r = CHR ''>'' # tl ?r" by (cases ?r) auto
  then have "cs = ?b @ CHR ''>'' # tl ?r"
    using takeWhile_dropWhile_id [of "\<lambda>x. x \<noteq> CHR ''>''" cs] by simp
  with s m rest show "s = m @ rest" by simp
  have "CHR ''>'' \<notin> set ?b" using set_takeWhileD by fastforce
  with c b m show "is_span m" by (auto simp: is_span_iff)
qed

lemma match_lora_at_span:
  assumes "is_span m"
  shows "match_lora_at (m @ post) = Some (m, post)"
proof -
  from assms obtain body where m: "m = CHR ''<'' # body @ [CHR ''>'']" and b: "body \<noteq> []"
    and n: "CHR ''>'' \<notin> set body" by (auto simp: is_span_iff)
  from n have n': "\<And>x. x \<in> set body \<Longrightarrow> x \<noteq> CHR ''>''" by auto
  have "takeWhile (\<lambda>x. x \<noteq> CHR ''>'') (body @ CHR ''>'' # post) = body"
    using takeWhile_append2 [of body "\<lambda>x. x \<noteq> CHR ''>''" "CHR ''>'' # post"] n' by simp
  moreover have "dropWhile (\<lambda>x. x \<noteq> CHR ''>'') (body @ CHR ''>'' # post) = CHR ''>'' # post"
    using dropWhile_append2 [of body "\<lambda>x. x \<noteq> CHR ''>''" "CHR ''>'' # post"] n' by simp
  ultimately show ?thesis using m b by (simp add: match_lora_at_def)
qed

lemma scan_lora_cases [case_names Nil Match Text]:
  assumes "P []"
    and "\<And>c cs m rest. match_lora_at (c # cs) = Some (m, rest) \<Longrightarrow> P rest \<Longrightarrow> P (c # cs)"
    and "\<And>c cs. match_lora_at (c # cs) = None \<Longrightarrow> P cs \<Longrightarrow> P (c # cs)"
  shows "P s"
proof (induction s rule: scan_lora.induct)
  case 1
  show ?case by (rule assms(1))
next
  case (2 c cs)
  show ?case
  proof (cases "match_lora_at (c # cs)")
    case None
    from 2(1) [OF None] have "P cs" .
    with None show ?thesis by (rule assms(3))
  next
    case (Some a)
    obtain m rest where a: "a = (m, rest)" by (cases a)
    with Some have s: "match_lora_at (c # cs) = Some (m, rest)" by simp
    from 2(2) [OF s refl] have "P rest" .
    with s show ?thesis by (rule assms(2))
  qed
qed

lemma scan_lora_step:
  "match_lora_at (c # cs) = Some (m, rest) \<Longrightarrow> scan_lora (c # cs) = Match m # scan_lora rest"
  "match_lora_at (c # cs) = None \<Longrightarrow> scan_lora (c # cs) = Text c # scan_lora cs"
  by (simp_all add: scan_lora.simps)


lemma matches_of_simps:
  "matches_of [] = []"
  "matches_of (Match m # ps) = m # matches_of ps"
  "matches_of (Text c # ps) = matches_of ps"
  "matches_of (ps @ qs) = matches_of ps @ matches_of qs"
  by (simp_all add: matches_of_def List.map_filter_def)

lemma texts_of_simps:
  "texts_of [] = []"
  "texts_of (Match m # ps) = texts_of ps"
  "texts_of (Text c # ps) = c # texts_of ps"
  "texts_of (ps @ qs) = texts_of ps @ texts_of qs"
  by (simp_all add: texts_of_def List.map_filter_def)

lemma remove_lora_simps:
  "remove_lora [] = []"
  "match_lora_at (c # cs) = Some (m, rest) \<Longrightarrow> remove_lora (c # cs) = remove_lora rest"
  "match_lora_at (c # cs) = None \<Longrightarrow> remove_lora (c # cs) = c # remove_lora cs"
  by (simp_all add: remove_lora_def texts_of_simps scan_lora_step)

lemma scan_concat: "concat (map piece_text (scan_lora s)) = s"
proof (induction s rule: scan_lora_cases)
  case Nil
  show ?case by simp
next
  case (Match c cs m rest)
  from Match.hyps have d: "c # cs = m @ rest" by (rule match_lora_at_Some(1))
  have "scan_lora (c # cs) = Match m # scan_lora rest"
    by (rule scan_lora_step(1) [OF Match.hyps])
  then have "concat (map piece_text (scan_lora (c # cs)))
               = m @ concat (map piece_text (scan_lora rest))" by simp
  also have "\<dots> = m @ rest" by (simp add: Match.IH)
  also have "\<dots> = c # cs" by (rule d [symmetric])
  finally show ?case .
next
  case (Text c cs)
  then show ?case by (simp add: scan_lora_step(2))
qed

lemma scan_spans: "m \<in> set (matches_of (scan_lora s)) \<Longrightarrow> is_span m"
proof (induction s rule: scan_lora_cases)
  case Nil
  then show ?case by (simp add: matches_of_simps)
next
  case (Match c cs m' rest)
  from Match.hyps have "is_span m'" by (rule match_lora_at_Some(2))
  with Match show ?case
    by (auto simp: matches_of_simps scan_lora_step(1) [OF Match.hyps])
next
  case (Text c cs)
  then show ?case by (simp add: matches_of_simps scan_lora_step(2))
qed

lemma remove_lora_subset: "set (remove_lora s) \<subseteq> set s"
proof (induction s rule: scan_lora_cases)
  case Nil
  show ?case by (simp add: remove_lora_simps)
next
  case (Match c cs m rest)
  from Match.hyps have "c # cs = m @ rest" by (rule match_lora_at_Some(1))
  then have "set rest \<subseteq> set (c # cs)" by simp
  moreover have "remove_lora (c # cs) = remove_lora rest"
    using Match.hyps by (rule remove_lora_simps(2))
  ultimately show ?case using Match.IH by auto
next
  case (Text c cs)
  then show ?case by (auto simp: remove_lora_simps)
qed

lemma match_lora_at_None_iff:
  "match_lora_at (c # cs) = None \<longleftrightarrow>
     c \<noteq> CHR ''<'' \<or> cs = [] \<or> hd cs = CHR ''>'' \<or> CHR ''>'' \<notin> set cs"
proof (cases cs)
  case Nil
  then show ?thesis by (simp add: match_lora_at_def)
next
  case (Cons x r)
  have "dropWhile (\<lambda>x. x \<noteq> CHR ''>'') cs = [] \<longleftrightarrow> CHR ''>'' \<notin> set cs"
    by (auto simp: dropWhile_eq_Nil_conv)
  moreover have "takeWhile (\<lambda>x. x \<noteq> CHR ''>'') cs = [] \<longleftrightarrow> hd cs = CHR ''>''"
    using Cons by (auto simp: takeWhile_eq_Nil_iff)
  ultimately show ?thesis by (auto simp: match_lora_at_def Let_def)
qed

lemma remove_lora_unmatched: "suffix u (remove_lora s) \<Longrightarrow> match_lora_at u = None"
proof (induction s arbitrary: u rule: scan_lora_cases)
  case Nil
  then show ?case by (simp add: remove_lora_simps match_lora_at_def)
next
  case (Match c cs m rest)
  then show ?case by (simp add: remove_lora_simps)
next
  case (Text c cs)
  from Text.prems Text.hyps have "suffix u (c # remove_lora cs)"
    by (simp add: remove_lora_simps)
  then consider "u = c # remove_lora cs" | "suffix u (remove_lora cs)"
    by (auto simp: suffix_Cons)
  then show ?case
  proof cases
    case 2
    then show ?thesis by (rule Text.IH)
  next
    case 1
    from Text.hyps have "c \<noteq> CHR ''<'' \<or> cs = [] \<or> hd cs = CHR ''>'' \<or> CHR ''>'' \<notin> set cs"
      by (simp add: match_lora_at_None_iff)
    then consider "c \<noteq> CHR ''<''" | "cs = []" | "cs \<noteq> []" "hd cs = CHR ''>''"
      | "CHR ''>'' \<notin> set cs" by blast
    then have "match_lora_at (c # remove_lora cs) = None"
    proof cases
      case 1
      then show ?thesis by (simp add: match_lora_at_None_iff)
    next
      case 2
      then show ?thesis by (simp add: remove_lora_simps match_lora_at_None_iff)
    next
      case 3
      then obtain r where cs: "cs = CHR ''>'' # r" by (cases cs) auto
      have "match_lora_at (CHR ''>'' # r) = None" by (simp add: match_lora_at_None_iff)
      then have "remove_lora cs = CHR ''>'' # remove_lora r"
        using cs by (simp add: remove_lora_simps)
      then show ?thesis by (simp add: match_lora_at_None_iff)
    next
      case 4
      then have "CHR ''>'' \<notin> set (remove_lora cs)" using remove_lora_subset by blast
      then show ?thesis by (simp add: match_lora_at_None_iff)
    qed
    with 1 show ?thesis by simp
  qed
qed

lemma scan_lora_unmatched:
  "(\<And>u. suffix u t \<Longrightarrow> match_lora_at u = None) \<Longrightarrow> scan_lora t = map Text t"
proof (induction t)
  case Nil
  show ?case by simp
next
  case (Cons c cs)
  have "match_lora_at (c # cs) = None" by (rule Cons.prems) simp
  moreover have "scan_lora cs = map Text cs"
    by (rule Cons.IH) (simp add: Cons.prems suffix_Cons)
  ultimately show ?case by (simp add: scan_lora_step(2))
qed

lemma remove_lora_no_span:
  assumes "is_span m"
  shows "\<not> sublist m (remove_lora s)"
proof
  assume "sublist m (remove_lora s)"
  then obtain ps ss where "remove_lora s = ps @ m @ ss" by (auto simp: sublist_def)
  then have "suffix (m @ ss) (remove_lora s)" by (simp add: suffix_def)
  then have "match_lora_at (m @ ss) = None" by (rule remove_lora_unmatched)
  with match_lora_at_span [OF assms, of ss] show False by simp
qed

lemma match_lora_removed: "match_lora (remove_lora s) = None"
proof -
  have "scan_lora (remove_lora s) = map Text (remove_lora s)"
    by (rule scan_lora_unmatched) (rule remove_lora_unmatched)
  then have "matches_of (scan_lora (remove_lora s)) = []"
    by (simp add: matches_of_def List.map_filter_def filter_empty_conv)
  then show ?thesis by (simp add: match_lora_def)
qed

lemma takeWhile_prefix_subset: "set (takeWhile P xs) \<subseteq> set (takeWhile P (xs @ ys))"
proof (cases "\<forall>x \<in> set xs. P x")
  case True
  then have a: "takeWhile P (xs @ ys) = xs @ takeWhile P ys" by (simp add: takeWhile_append2)
  from True have e: "takeWhile P xs = xs" by (simp add: takeWhile_eq_all_conv)
  show ?thesis by (simp only: a e) simp
next
  case False
  then obtain x where "x \<in> set xs" and "\<not> P x" by blast
  then have "takeWhile P (xs @ ys) = takeWhile P xs" by (rule takeWhile_append1)
  then show ?thesis by simp
qed

lemma closed_before_suffix: "closed_before (ps @ r) \<Longrightarrow> closed_before r"
  using takeWhile_prefix_subset [of "\<lambda>x. x \<noteq> CHR ''>''" "rev r" "rev ps"]
  unfolding closed_before_def by (simp only: rev_append) blast

lemma gt_in_match:
  assumes "match_lora_at (c # cs) = Some (m, r)"
  shows "CHR ''>'' \<in> set cs"
proof -
  from assms have "dropWhile (\<lambda>x. x \<noteq> CHR ''>'') cs \<noteq> []"
    by (auto simp: match_lora_at_def Let_def split: if_splits)
  then show ?thesis by (auto simp: dropWhile_eq_Nil_conv)
qed

lemma match_lora_at_append:
  assumes "match_lora_at (c # cs) = Some (m, r)"
  shows "match_lora_at ((c # cs) @ rest) = Some (m, r @ rest)"
proof -
  let ?P = "\<lambda>x. x \<noteq> CHR ''>''"
  have g: "CHR ''>'' \<in> set cs" using assms by (rule gt_in_match)
  then have t: "takeWhile ?P (cs @ rest) = takeWhile ?P cs"
    by (simp add: takeWhile_append1)
  from g have d: "dropWhile ?P (cs @ rest) = dropWhile ?P cs @ rest"
    by (simp add: dropWhile_append1)
  from g have ne: "dropWhile ?P cs \<noteq> []"
    by (auto simp: dropWhile_eq_Nil_conv)
  from assms have c: "c = CHR ''<''" and b: "takeWhile ?P cs \<noteq> []"
    and m: "m = c # takeWhile ?P cs @ [CHR ''>'']" and r: "r = tl (dropWhile ?P cs)"
    by (auto simp: match_lora_at_def Let_def split: if_splits)
  have "match_lora_at (c # (cs @ rest))
          = Some (c # takeWhile ?P cs @ [CHR ''>''], tl (dropWhile ?P cs @ rest))"
    using c b ne by (simp add: match_lora_at_def t d)
  with m r ne show ?thesis by simp
qed

lemma closed_lt_has_gt:
  assumes "closed_before (CHR ''<'' # cs)"
  shows "CHR ''>'' \<in> set cs"
proof (rule ccontr)
  assume "CHR ''>'' \<notin> set cs"
  then have "takeWhile (\<lambda>x. x \<noteq> CHR ''>'') (rev cs @ [CHR ''<'']) = rev cs @ [CHR ''<'']"
    by (simp add: takeWhile_append)
  with assms show False by (simp add: closed_before_def)
qed

lemma scan_lora_closed:
  "closed_before pre \<Longrightarrow> scan_lora (pre @ rest) = scan_lora pre @ scan_lora rest"
proof (induction pre rule: scan_lora_cases)
  case Nil
  show ?case by simp
next
  case (Match c cs m r)
  from Match.hyps have "c # cs = m @ r" by (rule match_lora_at_Some(1))
  with Match.prems have "closed_before r" using closed_before_suffix [of m r] by simp
  then have "scan_lora (r @ rest) = scan_lora r @ scan_lora rest" by (rule Match.IH)
  moreover have "scan_lora ((c # cs) @ rest) = Match m # scan_lora (r @ rest)"
    using match_lora_at_append [OF Match.hyps, of rest] by (simp add: scan_lora_step(1))
  moreover have "scan_lora (c # cs) = Match m # scan_lora r"
    using Match.hyps by (rule scan_lora_step(1))
  ultimately show ?case by simp
next
  case (Text c cs)
  from Text.prems have "closed_before cs" using closed_before_suffix [of "[c]" cs] by simp
  then have ih: "scan_lora (cs @ rest) = scan_lora cs @ scan_lora rest" by (rule Text.IH)
  have "match_lora_at (c # cs @ rest) = None"
  proof (cases "c = CHR ''<''")
    case False
    then show ?thesis by (simp add: match_lora_at_None_iff)
  next
    case True
    with Text.prems have g: "CHR ''>'' \<in> set cs" using closed_lt_has_gt by simp
    with Text.hyps True have "hd cs = CHR ''>''" and "cs \<noteq> []"
      by (auto simp: match_lora_at_None_iff)
    then have "hd (cs @ rest) = CHR ''>''" by simp
    then show ?thesis by (simp add: match_lora_at_None_iff)
  qed
  then have "scan_lora ((c # cs) @ rest) = Text c # scan_lora (cs @ rest)"
    by (simp add: scan_lora_step(2))
  moreover have "scan_lora (c # cs) = Text c # scan_lora cs"
    using Text.hyps by (rule scan_lora_step(2))
  ultimately show ?case using ih by simp
qed

lemma scan_lora_span:
  assumes "is_span m"
  shows "scan_lora (m @ post) = Match m # scan_lora post"
proof -
  from assms obtain c cs where m: "m = c # cs" by (cases m) (auto simp: is_span_def)
  from match_lora_at_span [OF assms, of post] m
  have "match_lora_at (c # (cs @ post)) = Some (m, post)" by simp
  then have "scan_lora (c # (cs @ post)) = Match m # scan_lora post"
    by (rule scan_lora_step(1))
  with m show ?thesis by simp
qed

lemma match_lora_closed:
  assumes "is_span m" and "closed_before pre"
  shows "match_lora (pre @ m @ post)
           = Some (matches_of (scan_lora pre) @ m # matches_of (scan_lora post))"
  using scan_lora_closed [OF assms(2), of "m @ post"] scan_lora_span [OF assms(1), of post]
  by (simp add: match_lora_def matches_of_simps)

lemma trim_sublist: "sublist (trim t) t"
proof -
  let ?u = "dropWhile is_ws t"
  have "rev (takeWhile is_ws (rev ?u) @ dropWhile is_ws (rev ?u)) = ?u"
    by (simp only: takeWhile_dropWhile_id rev_rev_ident)
  then have "trim t @ rev (takeWhile is_ws (rev ?u)) = ?u"
    by (simp only: rev_append trim_def)
  moreover have "takeWhile is_ws t @ ?u = t" by (rule takeWhile_dropWhile_id)
  ultimately have "t = takeWhile is_ws t @ trim t @ rev (takeWhile is_ws (rev ?u))"
    by (simp only:)
  then show ?thesis unfolding sublist_def by blast
qed

lemma span_abc: "is_span ''<a:b:c>''"
  by (simp add: is_span_def)

text \<open>
  C7, as the code has it. For every positive-prompt text \<open>p\<close>: every collected style
  reference is a span; the pieces of the scan, matches and single characters in their
  order, make up \<open>p\<close> again, so the references are collected in order of appearance and
  do not overlap; the text after removal has no match left, and no span occurs in it,
  \<open><a:b:c>\<close> included. A span \<open>m\<close> that stands in the text after a closed part \<open>pre\<close> is
  collected verbatim, between the references of \<open>pre\<close> and those of the rest. In run,
  \<open>lora\<close> is the list collected from the positive prompt and \<open>positive\<close> is cleanEdges
  of the text after removal; when cleanEdges only cuts at the edges (it returns a
  contiguous part of its argument), no span occurs in \<open>positive\<close>.
\<close>

theorem style_references:
  "(\<forall>r \<in> set (matches_of (scan_lora p)). is_span r)
   \<and> concat (map piece_text (scan_lora p)) = p
   \<and> match_lora (remove_lora p) = None
   \<and> (is_span m \<longrightarrow> \<not> sublist m (remove_lora p))
   \<and> (is_span m \<and> closed_before pre \<longrightarrow>
        match_lora (pre @ m @ post)
          = Some (matches_of (scan_lora pre) @ m # matches_of (scan_lora post)))
   \<and> is_span ''<a:b:c>''
   \<and> lora (run e raw) = match_lora (fst (split_prompt (first_line raw)))
   \<and> positive (run e raw) = cleanEdges e (remove_lora (fst (split_prompt (first_line raw))))
   \<and> (is_span m \<and> (\<forall>t. sublist (cleanEdges e t) t) \<longrightarrow> \<not> sublist m (positive (run e raw)))"
proof -
  have 1: "\<forall>r \<in> set (matches_of (scan_lora p)). is_span r"
    using scan_spans by blast
  have 2: "concat (map piece_text (scan_lora p)) = p" by (rule scan_concat)
  have 3: "match_lora (remove_lora p) = None" by (rule match_lora_removed)
  have 4: "is_span m \<longrightarrow> \<not> sublist m (remove_lora p)"
    using remove_lora_no_span by blast
  have 5: "is_span m \<and> closed_before pre \<longrightarrow>
        match_lora (pre @ m @ post)
          = Some (matches_of (scan_lora pre) @ m # matches_of (scan_lora post))"
    using match_lora_closed by blast
  have 9: "is_span m \<and> (\<forall>t. sublist (cleanEdges e t) t) \<longrightarrow> \<not> sublist m (positive (run e raw))"
  proof (intro impI notI, elim conjE)
    assume m: "is_span m" and c: "\<forall>t. sublist (cleanEdges e t) t"
      and "sublist m (positive (run e raw))"
    moreover have "sublist (positive (run e raw))
                     (remove_lora (fst (split_prompt (first_line raw))))"
      using c by (simp add: run_fields)
    ultimately have "sublist m (remove_lora (fst (split_prompt (first_line raw))))"
      by (meson sublist_order.order.trans)
    with remove_lora_no_span [OF m] show False by blast
  qed
  show ?thesis
    by (intro conjI 1 2 3 4 5 9 span_abc run_fields)
qed

theorem style_references_witness:
  "matches_of (scan_lora ''a <x:y:z> b'') = [''<x:y:z>''] \<and> is_span ''<x:y:z>''
   \<and> concat (map piece_text (scan_lora ''a <x:y:z> b'')) = ''a <x:y:z> b''
   \<and> is_span ''<a:b:c>'' \<and> closed_before ''1>2 ''
   \<and> match_lora (''1>2 '' @ ''<a:b:c>'' @ '' x'')
       = Some (matches_of (scan_lora ''1>2 '') @ ''<a:b:c>'' # matches_of (scan_lora '' x''))
   \<and> \<not> sublist ''<a:b:c>'' (remove_lora ''a <x:y:z> b'')
   \<and> (\<forall>t. sublist (cleanEdges plain_env t) t)
   \<and> \<not> sublist ''<a:b:c>'' (positive (run plain_env ''a cat''))"
proof -
  have c: "closed_before ''1>2 ''" by (simp add: closed_before_def)
  have e: "\<forall>t. sublist (cleanEdges plain_env t) t"
    by (simp add: plain_env_def trim_sublist)
  have s: "matches_of (scan_lora ''a <x:y:z> b'') = [''<x:y:z>'']" by code_simp
  have x: "is_span ''<x:y:z>''" by (simp add: is_span_def)
  note t = style_references
    [of "''a <x:y:z> b''" "''<a:b:c>''" "''1>2 ''" "'' x''" plain_env "''a cat''"]
  from t have m: "is_span ''<a:b:c>''" by blast
  from t have 2: "concat (map piece_text (scan_lora ''a <x:y:z> b'')) = ''a <x:y:z> b''"
    by blast
  from t m c have 5: "match_lora (''1>2 '' @ ''<a:b:c>'' @ '' x'')
       = Some (matches_of (scan_lora ''1>2 '') @ ''<a:b:c>'' # matches_of (scan_lora '' x''))"
    by blast
  from t m have 4: "\<not> sublist ''<a:b:c>'' (remove_lora ''a <x:y:z> b'')" by blast
  from t m e have 9: "\<not> sublist ''<a:b:c>'' (positive (run plain_env ''a cat''))" by blast
  show ?thesis by (intro conjI s x 2 m c 5 4 e 9)
qed

text \<open>
  C7, as the claim states it, fails on the positive prompt \<open>1<2 <a:b:c>\<close>: the match
  starts at the first \<open><\<close> and runs to the first \<open>>\<close>, so the only reference collected is
  \<open><2 <a:b:c>\<close>, and the list does not contain \<open><a:b:c>\<close> verbatim.
\<close>

theorem style_references_counterexample:
  "lora (run plain_env ''1<2 <a:b:c>'') = Some [''<2 <a:b:c>'']
   \<and> ''<a:b:c>'' \<notin> set [''<2 <a:b:c>'']"
  by code_simp

end
